theory Spec2Isabelle
  imports Main
begin

section \<open>JavaScript values\<close>

text \<open>
  The values that cross the interfaces of \<^verbatim>\<open>packages/core-data/src/resolvers.js\<close> and
  \<^verbatim>\<open>packages/data/src/redux-store/index.js\<close>: primitives and arrays of them. An object
  literal is an association list in insertion order; reading a property that is not
  there gives \<open>undefined\<close>.
\<close>

datatype jsval = JUndefined | JNull | JBool bool | JNum int | JStr string | JArr "jsval list"

type_synonym jobject = "(string \<times> jsval) list"

text \<open>JavaScript truthiness: what \<^verbatim>\<open>if ( v )\<close>, \<^verbatim>\<open>! v\<close>, \<^verbatim>\<open>a && b\<close> and \<^verbatim>\<open>a || b\<close> test.\<close>

fun truthy :: "jsval \<Rightarrow> bool" where
  "truthy JUndefined = False"
| "truthy JNull = False"
| "truthy (JBool b) = b"
| "truthy (JNum n) = (n \<noteq> 0)"
| "truthy (JStr s) = (s \<noteq> [])"
| "truthy (JArr xs) = True"

text \<open>\<^verbatim>\<open>a && b\<close> gives \<open>a\<close> when \<open>a\<close> is falsy and \<open>b\<close> otherwise.\<close>

definition js_and :: "jsval \<Rightarrow> jsval \<Rightarrow> jsval" where
  "js_and a b = (if truthy a then b else a)"

text \<open>\<^verbatim>\<open>o[ k ]\<close> on an object literal.\<close>

definition get_prop :: "jobject \<Rightarrow> string \<Rightarrow> jsval" where
  "get_prop obj k = (case map_of obj k of None \<Rightarrow> JUndefined | Some v \<Rightarrow> v)"

text \<open>\<^verbatim>\<open>o.hasOwnProperty( k )\<close>.\<close>

definition hasOwnProperty :: "jobject \<Rightarrow> string \<Rightarrow> bool" where
  "hasOwnProperty obj k = (map_of obj k \<noteq> None)"

text \<open>
  \<^verbatim>\<open>{ ...o, k: v }\<close> and \<^verbatim>\<open>o[ k ] = v\<close>: an existing property keeps its place, a new
  one goes last.
\<close>

fun obj_set :: "jobject \<Rightarrow> string \<Rightarrow> jsval \<Rightarrow> jobject" where
  "obj_set [] k v = [(k, v)]"
| "obj_set ((k', v') # rest) k v =
     (if k' = k then (k, v) # rest else (k', v') # obj_set rest k v)"

text \<open>Decimal digits of a natural number, for \<^verbatim>\<open>String( n )\<close>.\<close>

fun digits_of :: "nat \<Rightarrow> string" where
  "digits_of n =
     (if n < 10 then [''0123456789'' ! n]
      else digits_of (n div 10) @ [''0123456789'' ! (n mod 10)])"

declare digits_of.simps [simp del]

text \<open>\<^verbatim>\<open>xs.join( sep )\<close> on an array of strings.\<close>

fun join :: "string \<Rightarrow> string list \<Rightarrow> string" where
  "join sep [] = []"
| "join sep [x] = x"
| "join sep (x # y # ys) = x @ sep @ join sep (y # ys)"

text \<open>
  The string a value becomes in \<^verbatim>\<open>'' + v\<close> and in a template literal. An array is
  its elements joined by commas, with \<open>null\<close> and \<open>undefined\<close> elements left empty.
\<close>

fun js_to_string :: "jsval \<Rightarrow> string" where
  "js_to_string JUndefined = ''undefined''"
| "js_to_string JNull = ''null''"
| "js_to_string (JBool b) = (if b then ''true'' else ''false'')"
| "js_to_string (JNum n) = (if n < 0 then CHR ''-'' # digits_of (nat (- n)) else digits_of (nat n))"
| "js_to_string (JStr s) = s"
| "js_to_string (JArr xs) =
     join '','' (map (\<lambda>x. if x = JUndefined \<or> x = JNull then [] else js_to_string x) xs)"

text \<open>\<^verbatim>\<open>s.split( ',' )\<close>: the pieces between the separators; the empty string gives one empty piece.\<close>

fun split_on :: "char \<Rightarrow> string \<Rightarrow> string list" where
  "split_on c [] = [[]]"
| "split_on c (x # xs) =
     (if x = c then [] # split_on c xs
      else (case split_on c xs of w # ws \<Rightarrow> (x # w) # ws | [] \<Rightarrow> [[x]]))"

text \<open>\<^verbatim>\<open>s.indexOf( t ) > -1\<close>: \<open>t\<close> occurs in \<open>s\<close> as a contiguous run.\<close>

fun is_prefix :: "string \<Rightarrow> string \<Rightarrow> bool" where
  "is_prefix [] s = True"
| "is_prefix (a # t) [] = False"
| "is_prefix (a # t) (b # s) = (a = b \<and> is_prefix t s)"

fun occurs_in :: "string \<Rightarrow> string \<Rightarrow> bool" where
  "occurs_in t [] = (t = [])"
| "occurs_in t (b # s) = (is_prefix t (b # s) \<or> occurs_in t s)"

text \<open>
  lodash \<^verbatim>\<open>includes( collection, value )\<close> for a string \<open>value\<close>: a substring test on a
  string, strict membership on an array, and false on everything else (\<open>null\<close>,
  \<open>undefined\<close>, numbers and booleans have no values to look through).
\<close>

fun js_includes :: "jsval \<Rightarrow> string \<Rightarrow> bool" where
  "js_includes (JStr s) v = occurs_in v s"
| "js_includes (JArr xs) v = (JStr v \<in> set xs)"
| "js_includes _ v = False"

text \<open>lodash \<^verbatim>\<open>uniq\<close>: the first occurrence of each element, in order.\<close>

fun uniq :: "'a list \<Rightarrow> 'a list" where
  "uniq [] = []"
| "uniq (x # xs) = x # uniq (filter (\<lambda>y. y \<noteq> x) xs)"

text \<open>lodash \<^verbatim>\<open>compact\<close> on an array of strings and absent values: the falsy ones go.\<close>

fun compact :: "string option list \<Rightarrow> string list" where
  "compact [] = []"
| "compact (None # xs) = compact xs"
| "compact (Some s # xs) = (if s = [] then compact xs else s # compact xs)"

section \<open>What a resolver does: effects and outcomes\<close>

text \<open>
  A resolver of \<^verbatim>\<open>resolvers.js\<close> is a thunk \<^verbatim>\<open>async ( { select, dispatch } ) => ...\<close>. Its
  model returns the effects it performs on the store and the network, in order, and
  how the promise settles: \<open>Returned\<close> when it resolves, \<open>Raised e\<close> when it rejects.
\<close>

datatype error = Error string | TypeError string | ApiError string

record request =
  req_path :: string
  req_method :: "string option"
  req_parse :: "bool option"

datatype payload = Single jobject | Multiple "jobject list"

text \<open>
  The metadata actions, over any type of argument tuples:
  \<^verbatim>\<open>{ type: 'START_RESOLUTION', selectorName, args }\<close> and
  \<^verbatim>\<open>{ type: 'FINISH_RESOLUTION', selectorName, args }\<close>, which \<open>mapResolvers\<close> and
  \<open>getEntityRecords\<close> dispatch, and the action of \<open>invalidateResolution\<close>, one of the
  \<open>metadataActions\<close> that line 108 hands to the application.
\<close>

datatype 'a maction =
    START_RESOLUTION string 'a
  | FINISH_RESOLUTION string 'a
  | INVALIDATE_RESOLUTION string 'a

datatype effect =
    DispatchKindEntities string
  | AcquireStoreLock string "jsval list" bool
  | ReleaseStoreLock nat
  | ApiFetch request
  | ReceiveEntityRecords string string payload "jobject option"
  | ReceiveUserPermission string bool
  | Dispatch "jsval list maction"

datatype outcome = Returned | Raised error

section \<open>canUser\<close>

text \<open>
  The response of the preflight request. \<open>response.headers\<close> is either a fetch
  \<open>Headers\<close> object, given by what its \<open>get\<close> returns for a header name (a string, or
  \<open>null\<close> when the header is absent), or the plain object of a preloaded response; a
  response may also have no \<open>headers\<close> at all.
\<close>

datatype headers = FetchHeaders "string \<Rightarrow> jsval" | PlainHeaders jobject

type_synonym response = "headers option"

definition methods :: "(string \<times> string) list" where
  "methods = [(''create'', ''POST''), (''read'', ''GET''), (''update'', ''PUT''), (''delete'', ''DELETE'')]"

text \<open>
  \<^verbatim>\<open>hasIn( response, [ 'headers', 'get' ] )\<close>: a \<open>Headers\<close> object has \<open>get\<close>; a plain object
  has it only as a property of its own.
\<close>

fun has_get :: "response \<Rightarrow> bool" where
  "has_get None = False"
| "has_get (Some (FetchHeaders g)) = True"
| "has_get (Some (PlainHeaders h)) = hasOwnProperty h ''get''"

text \<open>
  The \<open>allowHeader\<close> of lines 331-340. With \<open>get\<close> present the header is
  \<^verbatim>\<open>response.headers.get( 'allow' )\<close>; on a plain object whose \<open>get\<close> property is a
  value of \<^typ>\<open>jsval\<close> that call is a \<open>TypeError\<close>, none of them being a function.
  Otherwise it is \<^verbatim>\<open>get( response, [ 'headers', 'Allow' ], '' )\<close>, the default standing
  in for \<open>undefined\<close>.
\<close>

definition allowHeader :: "response \<Rightarrow> error + jsval" where
  "allowHeader response =
     (if has_get response
      then (case response of
              Some (FetchHeaders g) \<Rightarrow> Inr (g ''allow'')
            | _ \<Rightarrow> Inl (TypeError ''response.headers.get is not a function''))
      else (case response of
              Some (PlainHeaders h) \<Rightarrow>
                if get_prop h ''Allow'' = JUndefined then Inr (JStr []) else Inr (get_prop h ''Allow'')
            | _ \<Rightarrow> Inr (JStr [])))"

text \<open>
  The preflight request of lines 312-324: \<open>GET\<close> on the item when an \<open>id\<close> is given,
  \<open>OPTIONS\<close> on the collection otherwise. An absent or empty \<open>id\<close> is falsy.
\<close>

definition preflight :: "string \<Rightarrow> string option \<Rightarrow> request" where
  "preflight resource rid =
     (case rid of
        None \<Rightarrow> \<lparr>req_path = ''/wp/v2/'' @ resource, req_method = Some ''OPTIONS'', req_parse = Some False\<rparr>
      | Some i \<Rightarrow>
          if i = [] then \<lparr>req_path = ''/wp/v2/'' @ resource, req_method = Some ''OPTIONS'', req_parse = Some False\<rparr>
          else \<lparr>req_path = ''/wp/v2/'' @ resource @ ''/'' @ i, req_method = Some ''GET'', req_parse = Some False\<rparr>)"

text \<open>\<^verbatim>\<open>compact( [ action, resource, id ] ).join( '/' )\<close>, line 342.\<close>

definition permission_key :: "string \<Rightarrow> string \<Rightarrow> string option \<Rightarrow> string" where
  "permission_key action resource rid = join ''/'' (compact [Some action, Some resource, rid])"

text \<open>
  \<open>canUser( action, resource, id )\<close>, lines 299-345. \<open>apiFetch\<close> is the network: the
  response, or the error it rejects with. \<open>methods[ action ]\<close> is read from the four
  own entries of the table (\<open>action\<close> is documented as one of them). A failed request
  is caught and the thunk returns; nothing is dispatched.
\<close>

definition canUser ::
  "(request \<Rightarrow> error + response) \<Rightarrow> string \<Rightarrow> string \<Rightarrow> string option \<Rightarrow> effect list \<times> outcome" where
  "canUser apiFetch action resource rid =
     (case map_of methods action of
        None \<Rightarrow> ([], Raised (Error (CHR 0x27 # action @ CHR 0x27 # '' is not a valid action.'')))
      | Some meth \<Rightarrow>
          (case apiFetch (preflight resource rid) of
             Inl e \<Rightarrow> ([ApiFetch (preflight resource rid)], Returned)
           | Inr response \<Rightarrow>
               (case allowHeader response of
                  Inl e \<Rightarrow> ([ApiFetch (preflight resource rid)], Raised e)
                | Inr hdr \<Rightarrow>
                    ([ApiFetch (preflight resource rid),
                      ReceiveUserPermission (permission_key action resource rid) (js_includes hdr meth)],
                     Returned))))"

section \<open>getEntityRecords.shouldInvalidate\<close>

text \<open>
  The four properties \<open>shouldInvalidate\<close> reads of the action it is given; one the
  action does not have reads as \<open>undefined\<close>.
\<close>

record action_obj =
  action_type :: jsval
  action_invalidateCache :: jsval
  action_kind :: jsval
  action_name :: jsval

text \<open>
  Lines 231-238. \<open>===\<close> between primitives is equality of values, and the chain of
  \<open>&&\<close> returns its first falsy operand, or the last one.
\<close>

definition shouldInvalidate :: "action_obj \<Rightarrow> jsval \<Rightarrow> jsval \<Rightarrow> jsval" where
  "shouldInvalidate action kind name =
     js_and
       (js_and
          (js_and
             (JBool (action_type action = JStr ''RECEIVE_ITEMS'' \<or> action_type action = JStr ''REMOVE_ITEMS''))
             (action_invalidateCache action))
          (JBool (kind = action_kind action)))
       (JBool (name = action_name action))"

section \<open>getEntityRecord and getEntityRecords\<close>

text \<open>
  An entity configuration, as \<open>getKindEntities\<close> returns it. \<open>key\<close> is optional.
\<close>

record entity =
  ent_kind :: string
  ent_name :: string
  ent_key :: "string option"
  ent_baseURL :: string

text \<open>
  What the two resolvers call and do not define: the entities
  \<^verbatim>\<open>dispatch( getKindEntities( kind ) )\<close> resolves to, the token
  \<^verbatim>\<open>dispatch( __unstableAcquireStoreLock( store, path, { exclusive } ) )\<close> resolves to,
  \<open>getNormalizedCommaSeparable\<close>, \<open>addQueryArgs\<close>, what \<^verbatim>\<open>select.hasEntityRecords\<close>
  answers, and how \<^verbatim>\<open>dispatch.receiveEntityRecords\<close> settles (\<open>None\<close>: it resolves;
  \<open>Some e\<close>: it rejects with \<open>e\<close>). Acquiring and releasing a lock always succeed.
\<close>

record collaborators =
  kindEntities :: "string \<Rightarrow> entity list"
  acquireStoreLock :: "string \<Rightarrow> jsval list \<Rightarrow> bool \<Rightarrow> nat"
  getNormalizedCommaSeparable :: "jsval \<Rightarrow> string list option"
  addQueryArgs :: "string \<Rightarrow> jobject \<Rightarrow> string"
  hasEntityRecords :: "string \<Rightarrow> string \<Rightarrow> jobject \<Rightarrow> bool"
  receiveEntityRecords :: "string \<Rightarrow> string \<Rightarrow> payload \<Rightarrow> jobject option \<Rightarrow> error option"

text \<open>
  Modelled from the spec: \<open>DEFAULT_ENTITY_KEY\<close> of \<^verbatim>\<open>./entities\<close>, the name of the primary
  key field of an entity that configures none (``default key name configurable per
  entity, e.g. \<open>id\<close>'').
\<close>

definition DEFAULT_ENTITY_KEY :: string where
  "DEFAULT_ENTITY_KEY = ''id''"

text \<open>\<^verbatim>\<open>entity.key || DEFAULT_ENTITY_KEY\<close>.\<close>

definition entity_key :: "entity \<Rightarrow> string" where
  "entity_key entity =
     (case ent_key entity of
        None \<Rightarrow> DEFAULT_ENTITY_KEY
      | Some k \<Rightarrow> if k = [] then DEFAULT_ENTITY_KEY else k)"

text \<open>lodash \<^verbatim>\<open>find( entities, { kind, name } )\<close>: the first entity of that kind and name.\<close>

definition find_entity :: "entity list \<Rightarrow> string \<Rightarrow> string \<Rightarrow> entity option" where
  "find_entity entities kind name = find (\<lambda>e. ent_kind e = kind \<and> ent_name e = name) entities"

text \<open>
  Lines 88-94 and 175-181: the query with \<open>_fields\<close> replaced by the normalized fields
  and the entity's key, without repetitions, joined by commas.
\<close>

definition with_key_field :: "collaborators \<Rightarrow> entity \<Rightarrow> jobject \<Rightarrow> jobject" where
  "with_key_field c entity query =
     obj_set query ''_fields''
       (JStr (join '',''
          (uniq ((case getNormalizedCommaSeparable c (get_prop query ''_fields'') of
                    None \<Rightarrow> [] | Some fs \<Rightarrow> fs) @ [entity_key entity]))))"

definition normalize_fields :: "collaborators \<Rightarrow> entity \<Rightarrow> jobject \<Rightarrow> jobject" where
  "normalize_fields c entity query =
     (if truthy (get_prop query ''_fields'') then with_key_field c entity query else query)"

text \<open>\<^verbatim>\<open>apiFetch( { path } )\<close> with \<^verbatim>\<open>path = addQueryArgs( url, { ...query, context: 'edit' } )\<close>.\<close>

definition edit_request :: "collaborators \<Rightarrow> string \<Rightarrow> jobject \<Rightarrow> request" where
  "edit_request c url query =
     \<lparr>req_path = addQueryArgs c url (obj_set query ''context'' (JStr ''edit'')),
      req_method = None, req_parse = None\<rparr>"

text \<open>Line 110: \<^verbatim>\<open>{ ...query, include: [ key ] }\<close> on the query of lines 84-95.\<close>

definition narrowed_query :: "collaborators \<Rightarrow> entity \<Rightarrow> jsval \<Rightarrow> jobject \<Rightarrow> jobject" where
  "narrowed_query c entity key query = obj_set (normalize_fields c entity query) ''include'' (JArr [key])"

text \<open>
  Lines 121-122 of \<open>getEntityRecord\<close>: the fetch and the receive dispatch, with the
  error either of them raises.
\<close>

definition fetch_and_receive ::
  "collaborators \<Rightarrow> (request \<Rightarrow> error + jobject) \<Rightarrow> request \<Rightarrow> string \<Rightarrow> string \<Rightarrow> jobject option
   \<Rightarrow> effect list \<times> error option" where
  "fetch_and_receive c apiFetch req kind name query =
     (case apiFetch req of
        Inl e \<Rightarrow> ([ApiFetch req], Some e)
      | Inr rec \<Rightarrow>
          ([ApiFetch req, ReceiveEntityRecords kind name (Single rec) query],
           receiveEntityRecords c kind name (Single rec) query))"

text \<open>
  The \<open>try\<close> block of \<open>getEntityRecord\<close>, lines 84-122: its effects and the error it
  ends with, if any. \<open>query\<close> is \<open>None\<close> for \<open>undefined\<close>.
\<close>

definition getEntityRecord_try ::
  "collaborators \<Rightarrow> (request \<Rightarrow> error + jobject) \<Rightarrow> entity \<Rightarrow> string \<Rightarrow> string \<Rightarrow> jsval
   \<Rightarrow> jobject option \<Rightarrow> effect list \<times> error option" where
  "getEntityRecord_try c apiFetch entity kind name key query =
     (case query of
        None \<Rightarrow>
          fetch_and_receive c apiFetch
            (edit_request c (ent_baseURL entity @ ''/'' @ js_to_string key) []) kind name None
      | Some q \<Rightarrow>
          if hasEntityRecords c kind name (narrowed_query c entity key q) then ([], None)
          else fetch_and_receive c apiFetch
                 (edit_request c (ent_baseURL entity @ ''/'' @ js_to_string key) (normalize_fields c entity q))
                 kind name (Some (narrowed_query c entity key q)))"

text \<open>
  \<open>getEntityRecord( kind, name, key = '', query )\<close>, lines 66-129. The default of \<open>key\<close>
  stands in for \<open>undefined\<close>. The \<open>catch\<close> swallows the error of the \<open>try\<close> block and
  the \<open>finally\<close> releases the lock.
\<close>

definition key_or_default :: "jsval \<Rightarrow> jsval" where
  "key_or_default key = (if key = JUndefined then JStr [] else key)"

definition record_lock_path :: "string \<Rightarrow> string \<Rightarrow> jsval \<Rightarrow> jsval list" where
  "record_lock_path kind name key = [JStr ''entities'', JStr ''data'', JStr kind, JStr name, key]"

definition getEntityRecord ::
  "collaborators \<Rightarrow> (request \<Rightarrow> error + jobject) \<Rightarrow> string \<Rightarrow> string \<Rightarrow> jsval \<Rightarrow> jobject option
   \<Rightarrow> effect list \<times> outcome" where
  "getEntityRecord c apiFetch kind name key0 query =
     (let key = key_or_default key0 in
      case find_entity (kindEntities c kind) kind name of
        None \<Rightarrow> ([DispatchKindEntities kind], Returned)
      | Some entity \<Rightarrow>
          let path = record_lock_path kind name key;
              lock = acquireStoreLock c ''core'' path False
          in ([DispatchKindEntities kind, AcquireStoreLock ''core'' path False]
              @ fst (getEntityRecord_try c apiFetch entity kind name key query)
              @ [ReleaseStoreLock lock],
              Returned))"

text \<open>
  Lines 193-203: every field of \<open>query._fields\<close> a record does not have is set to
  \<open>undefined\<close> on it.
\<close>

definition fill_fields :: "string list \<Rightarrow> jobject \<Rightarrow> jobject" where
  "fill_fields fs rec =
     foldl (\<lambda>r field. if hasOwnProperty r field then r else obj_set r field JUndefined) rec fs"

text \<open>
  Lines 209-225: for every record whose key field holds a truthy value, a
  \<open>START_RESOLUTION\<close> and a \<open>FINISH_RESOLUTION\<close> action for \<open>getEntityRecord\<close> with the
  arguments \<^verbatim>\<open>[ kind, name, record[ key ] ]\<close>.
\<close>

fun seed_resolutions :: "string \<Rightarrow> string \<Rightarrow> string \<Rightarrow> jobject list \<Rightarrow> effect list" where
  "seed_resolutions kind name key [] = []"
| "seed_resolutions kind name key (rec # recs) =
     (if truthy (get_prop rec key)
      then [Dispatch (START_RESOLUTION ''getEntityRecord'' [JStr kind, JStr name, get_prop rec key]),
            Dispatch (FINISH_RESOLUTION ''getEntityRecord'' [JStr kind, JStr name, get_prop rec key])]
      else [])
     @ seed_resolutions kind name key recs"

text \<open>
  The \<open>try\<close> block of \<open>getEntityRecords\<close>, lines 171-225. \<open>apiFetch\<close> gives the
  records of the response, \<^verbatim>\<open>Object.values( await apiFetch( { path } ) )\<close>. A truthy
  \<open>_fields\<close> that is not a string has no \<open>split\<close>.
\<close>

definition getEntityRecords_try ::
  "collaborators \<Rightarrow> (request \<Rightarrow> error + jobject list) \<Rightarrow> entity \<Rightarrow> string \<Rightarrow> string \<Rightarrow> jobject
   \<Rightarrow> effect list \<times> error option" where
  "getEntityRecords_try c apiFetch entity kind name query0 =
     (let query = normalize_fields c entity query0;
          req = edit_request c (ent_baseURL entity) query
      in case apiFetch req of
           Inl e \<Rightarrow> ([ApiFetch req], Some e)
         | Inr fetched \<Rightarrow>
             if truthy (get_prop query ''_fields'') then
               (case get_prop query ''_fields'' of
                  JStr str \<Rightarrow>
                    let records = map (fill_fields (split_on CHR '','' str)) fetched
                    in ([ApiFetch req, ReceiveEntityRecords kind name (Multiple records) (Some query)],
                        receiveEntityRecords c kind name (Multiple records) (Some query))
                | _ \<Rightarrow> ([ApiFetch req], Some (TypeError ''query._fields.split is not a function'')))
             else
               (case receiveEntityRecords c kind name (Multiple fetched) (Some query) of
                  Some e \<Rightarrow>
                    ([ApiFetch req, ReceiveEntityRecords kind name (Multiple fetched) (Some query)], Some e)
                | None \<Rightarrow>
                    ([ApiFetch req, ReceiveEntityRecords kind name (Multiple fetched) (Some query)]
                     @ seed_resolutions kind name (entity_key entity) fetched, None)))"

text \<open>
  \<open>getEntityRecords( kind, name, query = {} )\<close>, lines 154-229: \<open>try\<close> and \<open>finally\<close>
  with no \<open>catch\<close>, so an error of the block is raised again once the lock is released.
\<close>

definition records_lock_path :: "string \<Rightarrow> string \<Rightarrow> jsval list" where
  "records_lock_path kind name = [JStr ''entities'', JStr ''data'', JStr kind, JStr name]"

definition getEntityRecords ::
  "collaborators \<Rightarrow> (request \<Rightarrow> error + jobject list) \<Rightarrow> string \<Rightarrow> string \<Rightarrow> jobject option
   \<Rightarrow> effect list \<times> outcome" where
  "getEntityRecords c apiFetch kind name query0 =
     (let query = (case query0 of None \<Rightarrow> [] | Some q \<Rightarrow> q) in
      case find_entity (kindEntities c kind) kind name of
        None \<Rightarrow> ([DispatchKindEntities kind], Returned)
      | Some entity \<Rightarrow>
          let path = records_lock_path kind name;
              lock = acquireStoreLock c ''core'' path False;
              body = getEntityRecords_try c apiFetch entity kind name query
          in ([DispatchKindEntities kind, AcquireStoreLock ''core'' path False]
              @ fst body @ [ReleaseStoreLock lock],
              (case snd body of None \<Rightarrow> Returned | Some e \<Rightarrow> Raised e)))"

text \<open>Kinds of effects.\<close>

fun is_lock_op :: "effect \<Rightarrow> bool" where
  "is_lock_op (AcquireStoreLock s p x) = True"
| "is_lock_op (ReleaseStoreLock l) = True"
| "is_lock_op _ = False"

fun is_receive :: "effect \<Rightarrow> bool" where
  "is_receive (ReceiveEntityRecords k n p q) = True"
| "is_receive _ = False"

text \<open>The metadata actions among the effects, in order.\<close>

fun meta_actions :: "effect list \<Rightarrow> jsval list maction list" where
  "meta_actions [] = []"
| "meta_actions (Dispatch act # es) = act # meta_actions es"
| "meta_actions (e # es) = meta_actions es"

section \<open>The store of createReduxStore\<close>

subsection \<open>Resolution metadata\<close>

text \<open>
  A resolution key is a selector name with an argument tuple. The type \<open>'a\<close> of
  argument tuples is any type whose equality is the structural equality of
  \<open>EquivalentKeyMap\<close>. A key without an entry is unstarted.
\<close>

datatype status = Started | Finished

type_synonym 'a rkey = "string \<times> 'a"

type_synonym 'a metadata = "'a rkey \<Rightarrow> status option"

text \<open>
  Modelled from the spec: the reducer of \<^verbatim>\<open>./metadata/reducer\<close>. ``Resolution Entry:
  enum-like status, Unstarted, Started, Finished; transitions are monotonic (no
  regression from Finished to Started for the same key); entry persists for the store's
  lifetime (no eviction in this core, though cache invalidation can force re-resolution
  via explicit \<open>invalidateResolution\<close>-style actions)''. An invalidation clears the
  entry of its key, which is unstarted again.
\<close>

fun metadataReducer :: "'a metadata \<Rightarrow> 'a maction \<Rightarrow> 'a metadata" where
  "metadataReducer m (START_RESOLUTION n a) =
     (case m (n, a) of Some Finished \<Rightarrow> m | _ \<Rightarrow> m((n, a) \<mapsto> Started))"
| "metadataReducer m (FINISH_RESOLUTION n a) = m((n, a) \<mapsto> Finished)"
| "metadataReducer m (INVALIDATE_RESOLUTION n a) = m((n, a) := None)"

text \<open>
  Modelled from the spec: \<open>hasStartedResolution\<close> of \<^verbatim>\<open>./metadata/selectors\<close>. A started
  resolution is one with an entry, finished or not: ``a later single-record lookup
  [can] shortcut its own fetch because resolution state already shows Finished''.
\<close>

definition hasStartedResolution :: "'a metadata \<Rightarrow> string \<Rightarrow> 'a \<Rightarrow> bool" where
  "hasStartedResolution m n a = (m (n, a) \<noteq> None)"

text \<open>
  Modelled from the spec: \<open>hasFinishedResolution\<close> of \<^verbatim>\<open>./metadata/selectors\<close>: ``dispatch
  \<open>START_RESOLUTION\<close> then \<open>FINISH_RESOLUTION\<close> for \<open>('getWidget',[1])\<close>, [then]
  \<open>hasFinishedResolution('getWidget',[1])\<close> returns true; for \<open>('getWidget',[2])\<close>
  returns false''.
\<close>

definition hasFinishedResolution :: "'a metadata \<Rightarrow> string \<Rightarrow> 'a \<Rightarrow> bool" where
  "hasFinishedResolution m n a = (m (n, a) = Some Finished)"

subsection \<open>State, configuration and what is observed\<close>

text \<open>
  An action is a metadata action or an action of the registered reducer.
\<close>

datatype ('a, 'b) action = Meta "'a maction" | Root 'b

text \<open>
  The options the store is created with. \<open>resolvers[ name ]\<close> is absent, or a resolver
  with or without an \<open>isFulfilled\<close> function; its \<open>fulfill\<close> is opaque. A selector reads
  the root state. The registered reducer answers \<open>None\<close> when it returns the state
  object it was given, and \<open>Some r\<close> when it returns a new object \<open>r\<close>.
  \<open>opt_shouldInvalidate name\<close> is \<open>resolvers[ name ].shouldInvalidate\<close>, when the resolver
  has one: \<open>shouldInvalidate( action, ...args )\<close>.
\<close>

datatype ('a, 'r) resolver = Resolver "('r \<Rightarrow> 'a \<Rightarrow> bool) option"

record ('a, 'b, 'r, 'v) options =
  opt_resolvers :: "string \<Rightarrow> ('a, 'r) resolver option"
  opt_selectors :: "string \<Rightarrow> 'r \<Rightarrow> 'a \<Rightarrow> 'v"
  opt_reducer :: "'r \<Rightarrow> ('a, 'b) action \<Rightarrow> 'r option"
  opt_shouldInvalidate :: "string \<Rightarrow> (('a, 'b) action \<Rightarrow> 'a \<Rightarrow> bool) option"

text \<open>
  What can be observed of a run: a resolver's \<open>fulfill\<close> invoked, a resolution entry
  cleared by the invalidation middleware, an action reaching the reducer, a listener
  given to \<open>subscribe\<close> called, and \<open>unsubscribe()\<close> and \<open>resolve( v )\<close> called by the
  promise of \<open>resolveSelect\<close>. Listeners and promises are numbered as they are created,
  a promise and its listener by the same number.
\<close>

datatype ('a, 'b, 'v) obs =
    Fulfil "'a rkey"
  | Invalidated "'a rkey"
  | Dispatched "('a, 'b) action"
  | Called nat
  | Unsubscribed nat
  | Resolved nat 'v

text \<open>
  The listener handed to \<open>subscribe\<close>: one of the application, or the one of lines
  204-209, waiting for the resolution of a key.
\<close>

datatype 'a listener = External | Awaiting "'a rkey"

text \<open>The closure of lines 165-175: its \<open>lastState\<close> (an object identity) and its listener.\<close>

record 'a wrapper =
  w_lastState :: nat
  w_listener :: "'a listener"

text \<open>
  The state of an instantiated store. The \<^verbatim>\<open>{ metadata, root }\<close> object the Redux
  store holds is given by its identity \<open>sys_state_id\<close> and its two slices; \<open>!==\<close> on
  state objects compares identities. \<open>sys_entries\<close> lists the keys of the resolution
  entries, oldest first, for the middleware that goes through them. \<open>sys_running\<close> is
  the resolvers cache, \<open>sys_timers\<close> the callbacks handed to \<open>setTimeout\<close> and not run
  yet, oldest first, \<open>sys_pending\<close> the keys whose \<open>fulfill\<close> has been invoked and is
  awaited, \<open>sys_wrappers\<close> the closures created by \<open>subscribe\<close>, \<open>sys_subscribed\<close> the
  listeners of the Redux store, in subscription order.
\<close>

record ('a, 'b, 'r, 'v) sys =
  sys_state_id :: nat
  sys_metadata :: "'a metadata"
  sys_entries :: "'a rkey list"
  sys_root :: 'r
  sys_running :: "'a rkey \<Rightarrow> bool"
  sys_timers :: "'a rkey list"
  sys_pending :: "'a rkey list"
  sys_wrappers :: "nat \<Rightarrow> 'a wrapper option"
  sys_subscribed :: "nat list"
  sys_next :: nat
  sys_trace :: "('a, 'b, 'v) obs list"

definition init :: "'r \<Rightarrow> ('a, 'b, 'r, 'v) sys" where
  "init r =
     \<lparr>sys_state_id = 0, sys_metadata = (\<lambda>k. None), sys_entries = [], sys_root = r,
      sys_running = (\<lambda>k. False),
      sys_timers = [], sys_pending = [], sys_wrappers = (\<lambda>l. None), sys_subscribed = [],
      sys_next = 0, sys_trace = []\<rparr>"

subsection \<open>mapResolvers\<close>

text \<open>
  \<open>fulfillSelector\<close>, lines 355-394. It has no \<open>await\<close>, so it runs to its end when
  called: it returns at once when the cache marks the key as running, when
  \<open>isFulfilled\<close> is a function and answers true on the root state, or when the
  resolution has started; otherwise it marks the key as running and hands the callback
  to \<open>setTimeout\<close>.
\<close>

definition fulfillSelector ::
  "('a, 'r) resolver \<Rightarrow> ('a, 'b, 'r, 'v) sys \<Rightarrow> string \<Rightarrow> 'a \<Rightarrow> ('a, 'b, 'r, 'v) sys" where
  "fulfillSelector res s n a =
     (case res of Resolver isFulfilled \<Rightarrow>
        if sys_running s (n, a) \<or> (case isFulfilled of None \<Rightarrow> False | Some f \<Rightarrow> f (sys_root s) a)
        then s
        else if hasStartedResolution (sys_metadata s) n a then s
        else s\<lparr>sys_running := (sys_running s)((n, a) := True), sys_timers := sys_timers s @ [(n, a)]\<rparr>)"

text \<open>
  A call of the selector \<open>n\<close> of the store with the arguments \<open>a\<close>: \<open>mapSelector\<close>,
  lines 347-401, leaves a selector without a resolver as it is, and wraps one with a
  resolver into \<open>selectorResolver\<close>, which calls \<open>fulfillSelector\<close> first. The value
  returned is \<open>selector_value\<close>.
\<close>

definition selectorResolver ::
  "('a, 'b, 'r, 'v) options \<Rightarrow> ('a, 'b, 'r, 'v) sys \<Rightarrow> string \<Rightarrow> 'a \<Rightarrow> ('a, 'b, 'r, 'v) sys" where
  "selectorResolver opts s n a =
     (case opt_resolvers opts n of None \<Rightarrow> s | Some res \<Rightarrow> fulfillSelector res s n a)"

definition selector_value :: "('a, 'b, 'r, 'v) options \<Rightarrow> ('a, 'b, 'r, 'v) sys \<Rightarrow> string \<Rightarrow> 'a \<Rightarrow> 'v" where
  "selector_value opts s n a = opt_selectors opts n (sys_root s) a"

subsection \<open>subscribe and dispatch\<close>

text \<open>\<open>unsubscribe()\<close>, as \<open>store.subscribe\<close> returns it: the listener leaves the list.\<close>

definition unsubscribe :: "('a, 'b, 'r, 'v) sys \<Rightarrow> nat \<Rightarrow> ('a, 'b, 'r, 'v) sys" where
  "unsubscribe s l =
     s\<lparr>sys_subscribed := filter (\<lambda>x. x \<noteq> l) (sys_subscribed s),
       sys_trace := sys_trace s @ [Unsubscribed l]\<rparr>"

text \<open>
  The body of a listener. One of the application is opaque; here it dispatches nothing
  while it is being notified, and leaves the store as it is (listeners that dispatch
  come further down). The one of \<open>resolveSelect\<close>, lines 204-209: when the resolution
  has finished, \<open>unsubscribe()\<close>, then \<open>resolve( getResult() )\<close>, where \<open>getResult\<close> calls
  the selector.
\<close>

fun run_listener ::
  "('a, 'b, 'r, 'v) options \<Rightarrow> ('a, 'b, 'r, 'v) sys \<Rightarrow> nat \<Rightarrow> 'a listener \<Rightarrow> ('a, 'b, 'r, 'v) sys" where
  "run_listener opts s l External = s"
| "run_listener opts s l (Awaiting (n, a)) =
     (if hasFinishedResolution (sys_metadata s) n a
      then let s1 = unsubscribe s l;
               s2 = selectorResolver opts s1 n a
           in s2\<lparr>sys_trace := sys_trace s2 @ [Resolved l (selector_value opts s1 n a)]\<rparr>
      else s)"

text \<open>
  The function \<open>subscribe\<close> hands to \<open>store.subscribe\<close>, lines 167-175: it compares the
  state object with \<open>lastState\<close>, stores it, and calls the listener when they differ.
\<close>

definition run_wrapper ::
  "('a, 'b, 'r, 'v) options \<Rightarrow> ('a, 'b, 'r, 'v) sys \<Rightarrow> nat \<Rightarrow> ('a, 'b, 'r, 'v) sys" where
  "run_wrapper opts s l =
     (case sys_wrappers s l of
        None \<Rightarrow> s
      | Some w \<Rightarrow>
          let hasChanged = (sys_state_id s \<noteq> w_lastState w);
              s1 = s\<lparr>sys_wrappers := (sys_wrappers s)(l \<mapsto> w\<lparr>w_lastState := sys_state_id s\<rparr>)\<rparr>
          in if hasChanged
             then run_listener opts (s1\<lparr>sys_trace := sys_trace s1 @ [Called l]\<rparr>) l (w_listener w)
             else s1)"

text \<open>
  The Redux store after a dispatch: every listener subscribed when the dispatch
  began is called once, in subscription order. Here the listeners of the application
  dispatch nothing while they are being notified.
\<close>

fun notify ::
  "('a, 'b, 'r, 'v) options \<Rightarrow> ('a, 'b, 'r, 'v) sys \<Rightarrow> nat list \<Rightarrow> ('a, 'b, 'r, 'v) sys" where
  "notify opts s [] = s"
| "notify opts s (l # ls) = notify opts (run_wrapper opts s l) ls"

text \<open>
  Modelled from the spec: the middleware of \<^verbatim>\<open>../resolvers-cache-middleware\<close>, the first
  of the chain of lines 253-258. ``Resolver-cache invalidation middleware: inspects
  each dispatched action and, per resolver's \<open>shouldInvalidate(action, ...selectorArgs)\<close>
  predicate, clears matching Resolution Entries so future selector calls re-resolve''.
  \<open>invalidated_by\<close> are the keys of the entries it clears for an action, and
  \<open>clear_entries\<close> clears them.
\<close>

definition should_invalidate :: "('a, 'b, 'r, 'v) options \<Rightarrow> ('a, 'b) action \<Rightarrow> 'a rkey \<Rightarrow> bool" where
  "should_invalidate opts act k =
     (case opt_shouldInvalidate opts (fst k) of None \<Rightarrow> False | Some p \<Rightarrow> p act (snd k))"

definition invalidated_by ::
  "('a, 'b, 'r, 'v) options \<Rightarrow> ('a, 'b, 'r, 'v) sys \<Rightarrow> ('a, 'b) action \<Rightarrow> 'a rkey list" where
  "invalidated_by opts s act =
     filter (\<lambda>k. sys_metadata s k \<noteq> None \<and> should_invalidate opts act k) (sys_entries s)"

definition clear_entries :: "'a metadata \<Rightarrow> 'a rkey list \<Rightarrow> 'a metadata" where
  "clear_entries m ks = (\<lambda>k. if k \<in> set ks then None else m k)"

text \<open>The keys of the resolution entries once the metadata reducer has seen an action.\<close>

fun entries_after :: "'a rkey list \<Rightarrow> ('a, 'b) action \<Rightarrow> 'a rkey list" where
  "entries_after ks (Meta (START_RESOLUTION n a)) = (if (n, a) \<in> set ks then ks else ks @ [(n, a)])"
| "entries_after ks (Meta (FINISH_RESOLUTION n a)) = (if (n, a) \<in> set ks then ks else ks @ [(n, a)])"
| "entries_after ks (Meta (INVALIDATE_RESOLUTION n a)) = filter (\<lambda>k. k \<noteq> (n, a)) ks"
| "entries_after ks (Root b) = ks"

text \<open>
  An action on its way through the store: the invalidation middleware clears the
  entries the action invalidates, then the reducer of line 274,
  \<^verbatim>\<open>combineReducers( { metadata: metadataReducer, root: reducer } )\<close>, is applied to the
  state the store holds. The metadata reducer answers a metadata action with a new
  metadata object and returns its state on any other action; the combined state is a
  new object when a slice is, and the same object otherwise.
\<close>

definition reduce ::
  "('a, 'b, 'r, 'v) options \<Rightarrow> ('a, 'b, 'r, 'v) sys \<Rightarrow> ('a, 'b) action \<Rightarrow> ('a, 'b, 'r, 'v) sys" where
  "reduce opts s act =
     (let cleared = invalidated_by opts s act;
          kept = clear_entries (sys_metadata s) cleared;
          new_metadata = (case act of Meta m \<Rightarrow> Some (metadataReducer kept m)
                          | Root b \<Rightarrow> if cleared = [] then None else Some kept);
          new_root = opt_reducer opts (sys_root s) act
      in s\<lparr>sys_state_id := (if new_metadata = None \<and> new_root = None then sys_state_id s
                              else Suc (sys_state_id s)),
            sys_metadata := (case new_metadata of None \<Rightarrow> sys_metadata s | Some m \<Rightarrow> m),
            sys_entries := entries_after (filter (\<lambda>k. k \<notin> set cleared) (sys_entries s)) act,
            sys_root := (case new_root of None \<Rightarrow> sys_root s | Some r \<Rightarrow> r),
            sys_trace := sys_trace s @ map Invalidated cleared @ [Dispatched act]\<rparr>)"

text \<open>
  \<open>store.dispatch( action )\<close> for an action that reaches the reducer: the middleware
  and the reducer, then the listeners are notified.
\<close>

definition store_dispatch ::
  "('a, 'b, 'r, 'v) options \<Rightarrow> ('a, 'b, 'r, 'v) sys \<Rightarrow> ('a, 'b) action \<Rightarrow> ('a, 'b, 'r, 'v) sys" where
  "store_dispatch opts s act = notify opts (reduce opts s act) (sys_subscribed (reduce opts s act))"

text \<open>\<open>subscribe( listener )\<close>, lines 163-176: \<open>lastState\<close> starts as the current state object.\<close>

definition subscribe :: "('a, 'b, 'r, 'v) sys \<Rightarrow> 'a listener \<Rightarrow> ('a, 'b, 'r, 'v) sys" where
  "subscribe s lst =
     s\<lparr>sys_wrappers := (sys_wrappers s)(sys_next s \<mapsto> \<lparr>w_lastState = sys_state_id s, w_listener = lst\<rparr>),
       sys_subscribed := sys_subscribed s @ [sys_next s],
       sys_next := Suc (sys_next s)\<rparr>"

text \<open>
  The callback of lines 379-393, run by the timer: the cache entry is cleared,
  \<open>START_RESOLUTION\<close> is dispatched, \<open>fulfill\<close> is invoked and awaited.
\<close>

definition timeout_callback ::
  "('a, 'b, 'r, 'v) options \<Rightarrow> ('a, 'b, 'r, 'v) sys \<Rightarrow> 'a rkey \<Rightarrow> ('a, 'b, 'r, 'v) sys" where
  "timeout_callback opts s k =
     (let s1 = s\<lparr>sys_running := (sys_running s)(k := False)\<rparr>;
          s2 = store_dispatch opts s1 (Meta (START_RESOLUTION (fst k) (snd k)))
      in s2\<lparr>sys_trace := sys_trace s2 @ [Fulfil k], sys_pending := sys_pending s2 @ [k]\<rparr>)"

text \<open>
  The rest of the callback, once the awaited \<open>fulfillResolver\<close> settles: when it
  returned, \<open>FINISH_RESOLUTION\<close> is dispatched (lines 390-392); when it raised, the
  \<open>await\<close> raises and the callback ends there.
\<close>

definition settle ::
  "('a, 'b, 'r, 'v) options \<Rightarrow> ('a, 'b, 'r, 'v) sys \<Rightarrow> 'a rkey \<Rightarrow> bool \<Rightarrow> ('a, 'b, 'r, 'v) sys" where
  "settle opts s k returned =
     (if k \<in> set (sys_pending s)
      then let s1 = s\<lparr>sys_pending := remove1 k (sys_pending s)\<rparr>
           in if returned then store_dispatch opts s1 (Meta (FINISH_RESOLUTION (fst k) (snd k))) else s1
      else s)"

subsection \<open>resolveSelect\<close>

text \<open>
  \<open>resolveSelect.n( ...a )\<close>, lines 188-211. The executor of the promise runs at once:
  it calls the selector, resolves with the result when the resolution has finished,
  and subscribes the listener of lines 204-209 otherwise.
\<close>

definition resolveSelect ::
  "('a, 'b, 'r, 'v) options \<Rightarrow> ('a, 'b, 'r, 'v) sys \<Rightarrow> string \<Rightarrow> 'a \<Rightarrow> ('a, 'b, 'r, 'v) sys" where
  "resolveSelect opts s n a =
     (let s1 = selectorResolver opts s n a in
      if hasFinishedResolution (sys_metadata s1) n a
      then s1\<lparr>sys_next := Suc (sys_next s1),
              sys_trace := sys_trace s1 @ [Resolved (sys_next s1) (selector_value opts s n a)]\<rparr>
      else subscribe s1 (Awaiting (n, a)))"

subsection \<open>Runs\<close>

text \<open>
  What happens to a store, one event at a time: a selector is called; the oldest timer
  fires; an awaited \<open>fulfill\<close> returns or raises; an action is dispatched; the
  application subscribes a listener; \<open>resolveSelect\<close> is called. A dispatched action
  may invalidate resolutions.
\<close>

datatype ('a, 'b) event =
    Select string 'a
  | Tick
  | Settle "'a rkey" bool
  | DispatchEv "('a, 'b) action"
  | Subscribe
  | ResolveSelect string 'a

fun step ::
  "('a, 'b, 'r, 'v) options \<Rightarrow> ('a, 'b, 'r, 'v) sys \<Rightarrow> ('a, 'b) event \<Rightarrow> ('a, 'b, 'r, 'v) sys" where
  "step opts s (Select n a) = selectorResolver opts s n a"
| "step opts s Tick =
     (case sys_timers s of [] \<Rightarrow> s | k # ks \<Rightarrow> timeout_callback opts (s\<lparr>sys_timers := ks\<rparr>) k)"
| "step opts s (Settle k returned) = settle opts s k returned"
| "step opts s (DispatchEv act) = store_dispatch opts s act"
| "step opts s Subscribe = subscribe s External"
| "step opts s (ResolveSelect n a) = resolveSelect opts s n a"

definition run ::
  "('a, 'b, 'r, 'v) options \<Rightarrow> ('a, 'b, 'r, 'v) sys \<Rightarrow> ('a, 'b) event list \<Rightarrow> ('a, 'b, 'r, 'v) sys" where
  "run opts s evs = foldl (step opts) s evs"

subsection \<open>Listeners that dispatch\<close>

text \<open>
  A listener of the application may dispatch while it is being notified. \<open>react l s\<close>
  are the actions the listener \<open>l\<close> dispatches, in order, when it is called and finds
  the store in the state \<open>s\<close>. A dispatch inside a listener is a whole dispatch: the
  middleware and the reducer, then a notification of the listeners subscribed at that
  moment, and only then does the listener go on. The notification that called the
  listener goes on after it, with the listeners that were subscribed when it began.
  The number bounds the depth of dispatches inside notifications; beyond it there is
  no result.
\<close>

type_synonym ('a, 'b, 'r, 'v) reaction = "nat \<Rightarrow> ('a, 'b, 'r, 'v) sys \<Rightarrow> ('a, 'b) action list"

text \<open>The dispatches of a listener, one after the other, with the \<open>dispatch\<close> it has at hand.\<close>

fun dispatch_all ::
  "(('a, 'b, 'r, 'v) sys \<Rightarrow> ('a, 'b) action \<Rightarrow> ('a, 'b, 'r, 'v) sys option)
   \<Rightarrow> ('a, 'b, 'r, 'v) sys \<Rightarrow> ('a, 'b) action list \<Rightarrow> ('a, 'b, 'r, 'v) sys option" where
  "dispatch_all inner s [] = Some s"
| "dispatch_all inner s (act # acts) =
     (case inner s act of None \<Rightarrow> None | Some s' \<Rightarrow> dispatch_all inner s' acts)"

text \<open>
  The function of lines 167-175 again, with a listener of the application that
  dispatches what \<open>react\<close> says.
\<close>

definition run_wrapper_nested ::
  "(('a, 'b, 'r, 'v) sys \<Rightarrow> ('a, 'b) action \<Rightarrow> ('a, 'b, 'r, 'v) sys option)
   \<Rightarrow> ('a, 'b, 'r, 'v) reaction \<Rightarrow> ('a, 'b, 'r, 'v) options \<Rightarrow> ('a, 'b, 'r, 'v) sys \<Rightarrow> nat
   \<Rightarrow> ('a, 'b, 'r, 'v) sys option" where
  "run_wrapper_nested inner react opts s l =
     (case sys_wrappers s l of
        None \<Rightarrow> Some s
      | Some w \<Rightarrow>
          let hasChanged = (sys_state_id s \<noteq> w_lastState w);
              s1 = s\<lparr>sys_wrappers := (sys_wrappers s)(l \<mapsto> w\<lparr>w_lastState := sys_state_id s\<rparr>)\<rparr>;
              s2 = s1\<lparr>sys_trace := sys_trace s1 @ [Called l]\<rparr>
          in if hasChanged
             then (case w_listener w of
                     External \<Rightarrow> dispatch_all inner s2 (react l s2)
                   | Awaiting k \<Rightarrow> Some (run_listener opts s2 l (Awaiting k)))
             else Some s1)"

fun notify_nested ::
  "(('a, 'b, 'r, 'v) sys \<Rightarrow> ('a, 'b) action \<Rightarrow> ('a, 'b, 'r, 'v) sys option)
   \<Rightarrow> ('a, 'b, 'r, 'v) reaction \<Rightarrow> ('a, 'b, 'r, 'v) options \<Rightarrow> ('a, 'b, 'r, 'v) sys \<Rightarrow> nat list
   \<Rightarrow> ('a, 'b, 'r, 'v) sys option" where
  "notify_nested inner react opts s [] = Some s"
| "notify_nested inner react opts s (l # ls) =
     (case run_wrapper_nested inner react opts s l of
        None \<Rightarrow> None
      | Some s' \<Rightarrow> notify_nested inner react opts s' ls)"

text \<open>\<open>store.dispatch( action )\<close> with such listeners, to the depth \<open>d\<close>.\<close>

primrec dispatch_nested ::
  "nat \<Rightarrow> ('a, 'b, 'r, 'v) reaction \<Rightarrow> ('a, 'b, 'r, 'v) options \<Rightarrow> ('a, 'b, 'r, 'v) sys \<Rightarrow> ('a, 'b) action
   \<Rightarrow> ('a, 'b, 'r, 'v) sys option" where
  "dispatch_nested 0 react opts s act = None"
| "dispatch_nested (Suc d) react opts s act =
     notify_nested (dispatch_nested d react opts) react opts
       (reduce opts s act) (sys_subscribed (reduce opts s act))"

text \<open>How often things happened in the run that led to a state.\<close>

definition fulfilments :: "('a, 'b, 'r, 'v) sys \<Rightarrow> 'a rkey \<Rightarrow> nat" where
  "fulfilments s k = count_list (sys_trace s) (Fulfil k)"

definition clearings :: "('a, 'b, 'r, 'v) sys \<Rightarrow> 'a rkey \<Rightarrow> nat" where
  "clearings s k = count_list (sys_trace s) (Invalidated k)"

definition calls :: "('a, 'b, 'r, 'v) sys \<Rightarrow> nat \<Rightarrow> nat" where
  "calls s l = count_list (sys_trace s) (Called l)"

definition unsubscriptions :: "('a, 'b, 'r, 'v) sys \<Rightarrow> nat \<Rightarrow> nat" where
  "unsubscriptions s l = count_list (sys_trace s) (Unsubscribed l)"

fun is_resolved :: "nat \<Rightarrow> ('a, 'b, 'v) obs \<Rightarrow> bool" where
  "is_resolved p (Resolved q v) = (p = q)"
| "is_resolved p _ = False"

definition resolutions :: "('a, 'b, 'r, 'v) sys \<Rightarrow> nat \<Rightarrow> nat" where
  "resolutions s p = length (filter (is_resolved p) (sys_trace s))"

text \<open>The actions that reached the reducer, in order.\<close>

fun dispatched_of :: "('a, 'b, 'v) obs list \<Rightarrow> ('a, 'b) action list" where
  "dispatched_of [] = []"
| "dispatched_of (Dispatched act # obs) = act # dispatched_of obs"
| "dispatched_of (ob # obs) = dispatched_of obs"

definition dispatched :: "('a, 'b, 'r, 'v) sys \<Rightarrow> ('a, 'b) action list" where
  "dispatched s = dispatched_of (sys_trace s)"

text \<open>
  How often the resolution of a key was invalidated: by the middleware, or by an
  \<open>invalidateResolution\<close> action.
\<close>

definition invalidations :: "('a, 'b, 'r, 'v) sys \<Rightarrow> 'a rkey \<Rightarrow> nat" where
  "invalidations s k =
     clearings s k + count_list (dispatched s) (Meta (INVALIDATE_RESOLUTION (fst k) (snd k)))"


subsection \<open>Invariants of a run\<close>

text \<open>
  Per key: the timers and fulfilments are at most one more than the invalidations; at
  most one timer; a key with a timer is marked as running; a key without a resolution
  entry was fulfilled no more often than it was invalidated.
\<close>

definition dedup_inv :: "('a, 'b, 'r, 'v) sys \<Rightarrow> bool" where
  "dedup_inv s =
     (\<forall>k. count_list (sys_timers s) k + fulfilments s k \<le> 1 + invalidations s k
          \<and> count_list (sys_timers s) k \<le> 1
          \<and> (k \<in> set (sys_timers s) \<longrightarrow> sys_running s k)
          \<and> (sys_metadata s k = None \<longrightarrow> fulfilments s k \<le> invalidations s k))"

text \<open>
  What a selector call and a notification leave as it is: the state object, the
  resolution entries, the pending fulfilments, the numbering, the fulfilments,
  invalidations and dispatches observed, the invariant above, and the timers of the
  keys that have a resolution entry. Timers are added at the end.
\<close>

definition quiet :: "('a, 'b, 'r, 'v) sys \<Rightarrow> ('a, 'b, 'r, 'v) sys \<Rightarrow> bool" where
  "quiet s s' =
     (sys_metadata s' = sys_metadata s \<and> sys_state_id s' = sys_state_id s \<and> sys_root s' = sys_root s
      \<and> sys_entries s' = sys_entries s
      \<and> sys_pending s' = sys_pending s \<and> sys_next s' = sys_next s
      \<and> (\<forall>k. fulfilments s' k = fulfilments s k)
      \<and> (\<forall>k. clearings s' k = clearings s k)
      \<and> dispatched s' = dispatched s
      \<and> (dedup_inv s \<longrightarrow> dedup_inv s')
      \<and> (\<forall>k. sys_metadata s k \<noteq> None \<longrightarrow> count_list (sys_timers s') k = count_list (sys_timers s) k)
      \<and> (\<exists>new. sys_timers s' = sys_timers s @ new))"


text \<open>Every resolution entry has its key in the list of keys.\<close>

definition entries_inv :: "('a, 'b, 'r, 'v) sys \<Rightarrow> bool" where
  "entries_inv s = (\<forall>k. sys_metadata s k \<noteq> None \<longrightarrow> k \<in> set (sys_entries s))"

text \<open>
  The listeners: each is subscribed once, was created earlier, and has seen the state
  object the store holds. Nothing is observed of a listener or a promise before it is
  created.
\<close>

definition subscribed_inv :: "('a, 'b, 'r, 'v) sys \<Rightarrow> bool" where
  "subscribed_inv s =
     (distinct (sys_subscribed s)
      \<and> (\<forall>l \<in> set (sys_subscribed s).
            l < sys_next s \<and> (\<exists>w. sys_wrappers s l = Some w \<and> w_lastState w = sys_state_id s))
      \<and> (\<forall>l. sys_next s \<le> l \<longrightarrow> calls s l = 0 \<and> resolutions s l = 0 \<and> unsubscriptions s l = 0))"

text \<open>The wrapper \<open>l\<close> finds the state object changed.\<close>

definition sees_change :: "('a, 'b, 'r, 'v) sys \<Rightarrow> nat \<Rightarrow> bool" where
  "sees_change s l =
     (case sys_wrappers s l of None \<Rightarrow> False | Some w \<Rightarrow> sys_state_id s \<noteq> w_lastState w)"

text \<open>The listener \<open>l\<close> is one of \<open>resolveSelect\<close>, and the resolution it waits for has finished.\<close>

definition sees_finished :: "('a, 'b, 'r, 'v) sys \<Rightarrow> nat \<Rightarrow> bool" where
  "sees_finished s l =
     (case sys_wrappers s l of
        None \<Rightarrow> False
      | Some w \<Rightarrow>
          (case w_listener w of
             External \<Rightarrow> False
           | Awaiting k \<Rightarrow> hasFinishedResolution (sys_metadata s) (fst k) (snd k)))"


text \<open>The listener \<open>lst\<close>, if called, finds its resolution finished.\<close>

definition body_fires :: "('a, 'b, 'r, 'v) sys \<Rightarrow> 'a listener \<Rightarrow> bool" where
  "body_fires s lst =
     (case lst of
        External \<Rightarrow> False
      | Awaiting k \<Rightarrow> hasFinishedResolution (sys_metadata s) (fst k) (snd k))"

text \<open>The wrapper \<open>l\<close>, if run, calls its listener, which unsubscribes and resolves.\<close>

definition fires :: "('a, 'b, 'r, 'v) sys \<Rightarrow> nat \<Rightarrow> bool" where
  "fires s l = (sees_change s l \<and> sees_finished s l)"

text \<open>
  Two states with the same state object, the same listeners and the same observations
  about each of them.
\<close>

definition same_listeners :: "('a, 'b, 'r, 'v) sys \<Rightarrow> ('a, 'b, 'r, 'v) sys \<Rightarrow> bool" where
  "same_listeners s s' =
     (sys_subscribed s' = sys_subscribed s \<and> sys_wrappers s' = sys_wrappers s \<and> sys_next s' = sys_next s
      \<and> sys_state_id s' = sys_state_id s \<and> sys_metadata s' = sys_metadata s
      \<and> (\<forall>p. calls s' p = calls s p \<and> resolutions s' p = resolutions s p
               \<and> unsubscriptions s' p = unsubscriptions s p))"

text \<open>
  The shapes of a step, as far as listeners are concerned: nothing; one dispatch; one
  subscription; one promise resolved at once.
\<close>

definition step_shape :: "('a, 'b, 'r, 'v) options \<Rightarrow> ('a, 'b, 'r, 'v) sys \<Rightarrow> ('a, 'b, 'r, 'v) sys \<Rightarrow> bool" where
  "step_shape opts s s' =
     (same_listeners s s'
      \<or> (\<exists>s0 act. same_listeners s s0 \<and> same_listeners (store_dispatch opts s0 act) s')
      \<or> (\<exists>s0 lst. same_listeners s s0 \<and> s' = subscribe s0 lst)
      \<or> (\<exists>s0 v. same_listeners s s0 \<and>
            s' = s0\<lparr>sys_next := Suc (sys_next s0), sys_trace := sys_trace s0 @ [Resolved (sys_next s0) v]\<rparr>))"



section \<open>A small installation, for concrete runs\<close>

text \<open>
  One entity, \<open>postType/post\<close>, with the default key. The store already holds the
  records of a query narrowed to record 3, and of no other query.
\<close>

definition post_entity :: entity where
  "post_entity = \<lparr>ent_kind = ''postType'', ent_name = ''post'', ent_key = None, ent_baseURL = ''/wp/v2/posts''\<rparr>"

definition example_collaborators :: collaborators where
  "example_collaborators =
     \<lparr>kindEntities = (\<lambda>kind. if kind = ''postType'' then [post_entity] else []),
      acquireStoreLock = (\<lambda>store path exclusive. 7),
      getNormalizedCommaSeparable = (\<lambda>v. case v of JStr s \<Rightarrow> Some (split_on CHR '','' s) | _ \<Rightarrow> None),
      addQueryArgs = (\<lambda>url args. url),
      hasEntityRecords = (\<lambda>kind name query. get_prop query ''include'' = JArr [JNum 3]),
      receiveEntityRecords = (\<lambda>kind name records query. None)\<rparr>"

definition offline :: "request \<Rightarrow> error + 'a" where
  "offline req = Inl (ApiError ''offline'')"

text \<open>
  A store with one selector, \<open>getWidget\<close>, that has a resolver without \<open>isFulfilled\<close>.
  The root state is a number and the selector returns it. The reducer returns a new
  object with the same number on \<open>copy\<close>, a new object with the next number on
  \<open>increment\<close>, and the object it was given on any other action. The action \<open>refresh\<close>
  invalidates the resolutions of \<open>getWidget\<close>.
\<close>

definition widget_options :: "(jsval list, string, nat, nat) options" where
  "widget_options =
     \<lparr>opt_resolvers = (\<lambda>n. if n = ''getWidget'' then Some (Resolver None) else None),
      opt_selectors = (\<lambda>n r a. r),
      opt_reducer = (\<lambda>r act. if act = Root ''copy'' then Some r
                               else if act = Root ''increment'' then Some (Suc r) else None),
      opt_shouldInvalidate = (\<lambda>n. if n = ''getWidget'' then Some (\<lambda>act a. act = Root ''refresh'') else None)\<rparr>"

text \<open>
  A store with the selectors \<open>getEntityRecord\<close> and \<open>getEntityRecords\<close> and their resolvers, and
  a response with two posts, one of them with the key 0.
\<close>

definition core_options :: "(jsval list, string, nat, nat) options" where
  "core_options =
     \<lparr>opt_resolvers = (\<lambda>n. if n = ''getEntityRecord'' \<or> n = ''getEntityRecords'' then Some (Resolver None) else None),
      opt_selectors = (\<lambda>n r a. r),
      opt_reducer = (\<lambda>r act. None),
      opt_shouldInvalidate = (\<lambda>n. None)\<rparr>"

definition two_posts :: "request \<Rightarrow> error + jobject list" where
  "two_posts req = Inr [[(''id'', JNum 3), (''title'', JStr ''Hello'')], [(''id'', JNum 0), (''title'', JStr ''Draft'')]]"

section \<open>Properties\<close>

subsection \<open>shouldInvalidate\<close>

lemma js_and_true: "js_and a b = JBool True \<longleftrightarrow> (if truthy a then b = JBool True else a = JBool True)"
  by (simp add: js_and_def)

lemma truthy_js_and: "truthy (js_and a b) \<longleftrightarrow> truthy a \<and> truthy b"
  by (simp add: js_and_def)

text \<open>
  C7. \<open>getEntityRecords.shouldInvalidate( action, kind, name )\<close> returns \<open>true\<close> if and
  only if the action's type is \<open>RECEIVE_ITEMS\<close> or \<open>REMOVE_ITEMS\<close>, its
  \<open>invalidateCache\<close> flag is set (truthy), its kind is \<open>kind\<close> and its name is \<open>name\<close>.
  In every other case the value returned is falsy, which is what the invalidation
  middleware tests.
\<close>

theorem shouldInvalidate_iff:
  "(shouldInvalidate action kind name = JBool True) =
     ((action_type action = JStr ''RECEIVE_ITEMS'' \<or> action_type action = JStr ''REMOVE_ITEMS'')
      \<and> truthy (action_invalidateCache action)
      \<and> action_kind action = kind
      \<and> action_name action = name)
   \<and> truthy (shouldInvalidate action kind name) = (shouldInvalidate action kind name = JBool True)"
  by (cases "action_invalidateCache action") (auto simp: shouldInvalidate_def js_and_def)

text \<open>
  A \<open>RECEIVE_ITEMS\<close> action for \<open>postType/post\<close> flagged to invalidate: \<open>true\<close> for that
  kind and name.
\<close>

theorem shouldInvalidate_iff_witness:
  "shouldInvalidate
     \<lparr>action_type = JStr ''RECEIVE_ITEMS'', action_invalidateCache = JBool True,
      action_kind = JStr ''postType'', action_name = JStr ''post''\<rparr>
     (JStr ''postType'') (JStr ''post'') = JBool True"
  using shouldInvalidate_iff
    [of "\<lparr>action_type = JStr ''RECEIVE_ITEMS'', action_invalidateCache = JBool True,
          action_kind = JStr ''postType'', action_name = JStr ''post''\<rparr>" "JStr ''postType''" "JStr ''post''"]
  by simp

subsection \<open>canUser\<close>

lemma is_prefix_iff: "is_prefix t s \<longleftrightarrow> (\<exists>b. s = t @ b)"
  by (induction t s rule: is_prefix.induct) auto

lemma occurs_in_iff: "occurs_in t s \<longleftrightarrow> (\<exists>a b. s = a @ t @ b)"
proof (induction s)
  case Nil
  then show ?case by auto
next
  case (Cons x s)
  show ?case
  proof
    assume "occurs_in t (x # s)"
    then consider "is_prefix t (x # s)" | "occurs_in t s" by auto
    then show "\<exists>a b. x # s = a @ t @ b"
    proof cases
      case 1
      then obtain b where "x # s = t @ b" by (auto simp: is_prefix_iff)
      then have "x # s = [] @ t @ b" by simp
      then show ?thesis by blast
    next
      case 2
      with Cons obtain a b where "s = a @ t @ b" by auto
      then have "x # s = (x # a) @ t @ b" by simp
      then show ?thesis by blast
    qed
  next
    assume "\<exists>a b. x # s = a @ t @ b"
    then obtain a b where ab: "x # s = a @ t @ b" by auto
    show "occurs_in t (x # s)"
    proof (cases a)
      case Nil
      with ab have "is_prefix t (x # s)" by (auto simp: is_prefix_iff)
      then show ?thesis by simp
    next
      case (Cons y a')
      with ab have "s = a' @ t @ b" by simp
      with Cons.IH have "occurs_in t s" by blast
      then show ?thesis by simp
    qed
  qed
qed

text \<open>
  C8. When \<open>action\<close> names a method and the preflight request succeeds, \<open>canUser\<close>
  dispatches \<open>receiveUserPermission\<close> once, with the permission key and with \<open>true\<close>
  exactly when the Allow header includes the method. The header is what
  \<^verbatim>\<open>headers.get( 'allow' )\<close> returns on a fetch response, and the \<open>Allow\<close> property of the
  plain \<open>headers\<close> object of a preloaded one. A header that is a string includes the
  method when the method occurs in it; an absent header includes nothing.
\<close>

theorem canUser_permission:
  assumes "map_of methods action = Some meth"
      and "apiFetch (preflight resource rid) = Inr (Some hs)"
      and "hs = FetchHeaders g \<and> hdr = g ''allow''
           \<or> hs = PlainHeaders h \<and> \<not> hasOwnProperty h ''get'' \<and> hdr = get_prop h ''Allow''"
  shows "canUser apiFetch action resource rid =
           ([ApiFetch (preflight resource rid),
             ReceiveUserPermission (permission_key action resource rid) (js_includes hdr meth)], Returned)
         \<and> (\<forall>s. js_includes (JStr s) meth = (\<exists>a b. s = a @ meth @ b))
         \<and> (hdr = JNull \<or> hdr = JUndefined \<longrightarrow> js_includes hdr meth = False)"
proof -
  have m: "meth \<noteq> []"
    using assms(1) by (auto simp: methods_def split: if_splits)
  have e: "js_includes (JStr []) meth = False"
    using m by (cases meth) auto
  have "allowHeader (Some hs) = Inr hdr \<or> (allowHeader (Some hs) = Inr (JStr []) \<and> hdr = JUndefined)"
    using assms(3) by (auto simp: allowHeader_def split: if_splits)
  then have "canUser apiFetch action resource rid =
           ([ApiFetch (preflight resource rid),
             ReceiveUserPermission (permission_key action resource rid) (js_includes hdr meth)], Returned)"
    using assms(1,2) e by (auto simp: canUser_def)
  then show ?thesis
    by (auto simp: occurs_in_iff)
qed

text \<open>
  The scenario of the specification: \<^verbatim>\<open>canUser( 'create', 'media' )\<close> records \<open>true\<close> for
  the header \<^verbatim>\<open>GET, POST\<close> of a fetch response and \<open>false\<close> for the header \<^verbatim>\<open>GET\<close> of a
  preloaded one. And \<^verbatim>\<open>canUser( 'update', 'posts', '7' )\<close> records \<open>false\<close> when the
  response has no Allow header.
\<close>

theorem canUser_permission_witness:
  "canUser (\<lambda>r. Inr (Some (FetchHeaders (\<lambda>n. if n = ''allow'' then JStr ''GET, POST'' else JNull))))
     ''create'' ''media'' None
   = ([ApiFetch \<lparr>req_path = ''/wp/v2/media'', req_method = Some ''OPTIONS'', req_parse = Some False\<rparr>,
       ReceiveUserPermission ''create/media'' True], Returned)
   \<and> canUser (\<lambda>r. Inr (Some (PlainHeaders [(''Allow'', JStr ''GET'')]))) ''create'' ''media'' None
   = ([ApiFetch \<lparr>req_path = ''/wp/v2/media'', req_method = Some ''OPTIONS'', req_parse = Some False\<rparr>,
       ReceiveUserPermission ''create/media'' False], Returned)
   \<and> canUser (\<lambda>r. Inr (Some (FetchHeaders (\<lambda>n. JNull)))) ''update'' ''posts'' (Some ''7'')
   = ([ApiFetch \<lparr>req_path = ''/wp/v2/posts/7'', req_method = Some ''GET'', req_parse = Some False\<rparr>,
       ReceiveUserPermission ''update/posts/7'' False], Returned)"
proof -
  have m: "map_of methods ''create'' = Some ''POST''" by (simp add: methods_def)
  have a: "canUser (\<lambda>r. Inr (Some (FetchHeaders (\<lambda>n. if n = ''allow'' then JStr ''GET, POST'' else JNull))))
     ''create'' ''media'' None
   = ([ApiFetch (preflight ''media'' None),
       ReceiveUserPermission (permission_key ''create'' ''media'' None) (js_includes (JStr ''GET, POST'') ''POST'')], Returned)"
    using canUser_permission [OF m, where apiFetch = "\<lambda>r. Inr (Some (FetchHeaders (\<lambda>n. if n = ''allow'' then JStr ''GET, POST'' else JNull)))"
        and hs = "FetchHeaders (\<lambda>n. if n = ''allow'' then JStr ''GET, POST'' else JNull)"
        and g = "\<lambda>n. if n = ''allow'' then JStr ''GET, POST'' else JNull" and hdr = "JStr ''GET, POST''"
        and resource = "''media''" and rid = None]
    by simp
  have b: "canUser (\<lambda>r. Inr (Some (PlainHeaders [(''Allow'', JStr ''GET'')]))) ''create'' ''media'' None
   = ([ApiFetch (preflight ''media'' None),
       ReceiveUserPermission (permission_key ''create'' ''media'' None) (js_includes (JStr ''GET'') ''POST'')], Returned)"
    using canUser_permission [OF m, where apiFetch = "\<lambda>r. Inr (Some (PlainHeaders [(''Allow'', JStr ''GET'')]))"
        and hs = "PlainHeaders [(''Allow'', JStr ''GET'')]"
        and h = "[(''Allow'', JStr ''GET'')]" and hdr = "JStr ''GET''"
        and resource = "''media''" and rid = None]
    by (simp add: hasOwnProperty_def get_prop_def)
  have u: "map_of methods ''update'' = Some ''PUT''" by (simp add: methods_def)
  have c: "canUser (\<lambda>r. Inr (Some (FetchHeaders (\<lambda>n. JNull)))) ''update'' ''posts'' (Some ''7'')
   = ([ApiFetch (preflight ''posts'' (Some ''7'')),
       ReceiveUserPermission (permission_key ''update'' ''posts'' (Some ''7'')) False], Returned)"
    using canUser_permission [OF u, where apiFetch = "\<lambda>r. Inr (Some (FetchHeaders (\<lambda>n. JNull)))"
        and hs = "FetchHeaders (\<lambda>n. JNull)" and g = "\<lambda>n. JNull" and hdr = JNull
        and resource = "''posts''" and rid = "Some ''7''"]
    by simp
  show ?thesis
    using a b c by (simp add: preflight_def permission_key_def)
qed

subsection \<open>getEntityRecord and getEntityRecords\<close>

lemma fetch_and_receive_lock_free:
  "filter is_lock_op (fst (fetch_and_receive c apiFetch req kind name query)) = []"
  by (simp add: fetch_and_receive_def split: sum.splits)

lemma getEntityRecord_try_lock_free:
  "filter is_lock_op (fst (getEntityRecord_try c apiFetch entity kind name key query)) = []"
  by (simp add: getEntityRecord_try_def fetch_and_receive_lock_free split: option.splits)

lemma fetch_and_receive_failed:
  "ApiFetch r \<in> set (fst (fetch_and_receive c apiFetch req kind name query)) \<Longrightarrow> apiFetch r = Inl e
   \<Longrightarrow> filter is_receive (fst (fetch_and_receive c apiFetch req kind name query)) = []"
  by (auto simp: fetch_and_receive_def split: sum.splits)

lemma getEntityRecord_try_failed:
  "ApiFetch r \<in> set (fst (getEntityRecord_try c apiFetch entity kind name key query)) \<Longrightarrow> apiFetch r = Inl e
   \<Longrightarrow> filter is_receive (fst (getEntityRecord_try c apiFetch entity kind name key query)) = []"
  by (auto simp: getEntityRecord_try_def dest: fetch_and_receive_failed split: option.splits if_splits)

lemma find_post_entity:
  "find_entity (kindEntities example_collaborators ''postType'') ''postType'' ''post'' = Some post_entity"
  by (simp add: example_collaborators_def find_entity_def post_entity_def)

text \<open>
  C5. Once \<open>getEntityRecord\<close> has found its entity it acquires the lock and releases
  that same lock as its last effect, acquiring and releasing nothing else, and the
  thunk returns without raising, whatever the fetch and the receive dispatch do. When
  the fetch it issued failed, no receive-action is dispatched, so the state stored
  before stays.
\<close>

theorem getEntityRecord_releases_lock:
  assumes "find_entity (kindEntities c kind) kind name = Some entity"
  shows "snd (getEntityRecord c apiFetch kind name key query) = Returned
       \<and> filter is_lock_op (fst (getEntityRecord c apiFetch kind name key query)) =
           [AcquireStoreLock ''core'' (record_lock_path kind name (key_or_default key)) False,
            ReleaseStoreLock (acquireStoreLock c ''core'' (record_lock_path kind name (key_or_default key)) False)]
       \<and> last (fst (getEntityRecord c apiFetch kind name key query)) =
           ReleaseStoreLock (acquireStoreLock c ''core'' (record_lock_path kind name (key_or_default key)) False)
       \<and> (\<forall>req e. ApiFetch req \<in> set (fst (getEntityRecord c apiFetch kind name key query))
                   \<and> apiFetch req = Inl e
            \<longrightarrow> filter is_receive (fst (getEntityRecord c apiFetch kind name key query)) = [])"
proof -
  let ?body = "fst (getEntityRecord_try c apiFetch entity kind name (key_or_default key) query)"
  let ?path = "record_lock_path kind name (key_or_default key)"
  have r: "getEntityRecord c apiFetch kind name key query =
             ([DispatchKindEntities kind, AcquireStoreLock ''core'' ?path False] @ ?body
              @ [ReleaseStoreLock (acquireStoreLock c ''core'' ?path False)], Returned)"
    using assms by (simp add: getEntityRecord_def Let_def)
  have "\<forall>req e. ApiFetch req \<in> set ?body \<and> apiFetch req = Inl e \<longrightarrow> filter is_receive ?body = []"
    using getEntityRecord_try_failed by blast
  then show ?thesis
    unfolding r by (simp add: getEntityRecord_try_lock_free)
qed

text \<open>Record 3 of \<open>postType/post\<close> with the network down: the lock is taken and released, nothing is received.\<close>

theorem getEntityRecord_releases_lock_witness:
  "find_entity (kindEntities example_collaborators ''postType'') ''postType'' ''post'' = Some post_entity
   \<and> getEntityRecord example_collaborators offline ''postType'' ''post'' (JNum 3) None =
       ([DispatchKindEntities ''postType'',
         AcquireStoreLock ''core'' [JStr ''entities'', JStr ''data'', JStr ''postType'', JStr ''post'', JNum 3] False,
         ApiFetch \<lparr>req_path = ''/wp/v2/posts/3'', req_method = None, req_parse = None\<rparr>,
         ReleaseStoreLock 7], Returned)
   \<and> offline \<lparr>req_path = ''/wp/v2/posts/3'', req_method = None, req_parse = None\<rparr> = (Inl (ApiError ''offline'') :: error + jobject)
   \<and> filter is_receive (fst (getEntityRecord example_collaborators offline ''postType'' ''post'' (JNum 3) None)) = []"
proof -
  let ?run = "getEntityRecord example_collaborators offline ''postType'' ''post'' (JNum 3) None"
  let ?req = "\<lparr>req_path = ''/wp/v2/posts/3'', req_method = None, req_parse = None\<rparr>"
  have run: "?run =
       ([DispatchKindEntities ''postType'',
         AcquireStoreLock ''core'' [JStr ''entities'', JStr ''data'', JStr ''postType'', JStr ''post'', JNum 3] False,
         ApiFetch ?req, ReleaseStoreLock 7], Returned)"
    by (simp add: getEntityRecord_def getEntityRecord_try_def fetch_and_receive_def edit_request_def Let_def
        find_post_entity key_or_default_def record_lock_path_def offline_def digits_of.simps)
       (simp add: example_collaborators_def post_entity_def)
  have off: "offline ?req = (Inl (ApiError ''offline'') :: error + jobject)"
    by (simp add: offline_def)
  have "ApiFetch ?req \<in> set (fst ?run)"
    by (simp add: run)
  with getEntityRecord_releases_lock [OF find_post_entity, of offline "JNum 3" None] off
  have "filter is_receive (fst ?run) = []"
    by blast
  with run off find_post_entity show ?thesis
    by simp
qed

text \<open>
  C9. When \<open>getEntityRecord\<close> is given a query and \<open>hasEntityRecords\<close> reports that the
  store holds the records of the narrowed query, the resolver takes the lock and
  releases it and does nothing else: no fetch and no receive-action. The narrowed
  query is the query with \<^verbatim>\<open>include: [ key ]\<close>, after the key field has been added to a
  \<open>_fields\<close> restriction if there is one.
\<close>

theorem getEntityRecord_reuses_records:
  assumes "find_entity (kindEntities c kind) kind name = Some entity"
      and "hasEntityRecords c kind name (narrowed_query c entity (key_or_default key) q)"
  shows "getEntityRecord c apiFetch kind name key (Some q) =
           ([DispatchKindEntities kind,
             AcquireStoreLock ''core'' (record_lock_path kind name (key_or_default key)) False,
             ReleaseStoreLock (acquireStoreLock c ''core'' (record_lock_path kind name (key_or_default key)) False)],
            Returned)
         \<and> (\<not> truthy (get_prop q ''_fields'')
              \<longrightarrow> narrowed_query c entity (key_or_default key) q = obj_set q ''include'' (JArr [key_or_default key]))"
  using assms
  by (simp add: getEntityRecord_def getEntityRecord_try_def Let_def narrowed_query_def normalize_fields_def)

text \<open>Record 3 of \<open>postType/post\<close> asked for with the query \<^verbatim>\<open>{ per_page: 10 }\<close>.\<close>

theorem getEntityRecord_reuses_records_witness:
  "find_entity (kindEntities example_collaborators ''postType'') ''postType'' ''post'' = Some post_entity
   \<and> hasEntityRecords example_collaborators ''postType'' ''post''
       (narrowed_query example_collaborators post_entity (key_or_default (JNum 3)) [(''per_page'', JNum 10)])
   \<and> \<not> truthy (get_prop [(''per_page'', JNum 10)] ''_fields'')
   \<and> narrowed_query example_collaborators post_entity (key_or_default (JNum 3)) [(''per_page'', JNum 10)]
       = [(''per_page'', JNum 10), (''include'', JArr [JNum 3])]
   \<and> getEntityRecord example_collaborators offline ''postType'' ''post'' (JNum 3) (Some [(''per_page'', JNum 10)]) =
       ([DispatchKindEntities ''postType'',
         AcquireStoreLock ''core'' [JStr ''entities'', JStr ''data'', JStr ''postType'', JStr ''post'', JNum 3] False,
         ReleaseStoreLock 7], Returned)"
proof -
  have n: "narrowed_query example_collaborators post_entity (key_or_default (JNum 3)) [(''per_page'', JNum 10)]
       = [(''per_page'', JNum 10), (''include'', JArr [JNum 3])]"
    by (simp add: narrowed_query_def normalize_fields_def get_prop_def key_or_default_def)
  have h: "hasEntityRecords example_collaborators ''postType'' ''post''
       (narrowed_query example_collaborators post_entity (key_or_default (JNum 3)) [(''per_page'', JNum 10)])"
    unfolding n by (simp add: example_collaborators_def get_prop_def)
  have f: "\<not> truthy (get_prop [(''per_page'', JNum 10)] ''_fields'')"
    by (simp add: get_prop_def)
  from getEntityRecord_reuses_records [OF find_post_entity h, of offline] f n h find_post_entity
  show ?thesis
    by (simp add: key_or_default_def record_lock_path_def example_collaborators_def)
qed

text \<open>
  C10. When no entity of the kind has the name, \<open>getEntityRecord\<close> and
  \<open>getEntityRecords\<close> return after the entity-kind resolution: no lock is acquired,
  nothing is fetched and no action is dispatched, so the root state is the one the
  entity-kind resolution left.
\<close>

theorem no_entity_no_effects:
  assumes "find_entity (kindEntities c kind) kind name = None"
  shows "getEntityRecord c apiFetch kind name key query = ([DispatchKindEntities kind], Returned)
       \<and> getEntityRecords c apiFetch' kind name query' = ([DispatchKindEntities kind], Returned)"
  using assms by (simp add: getEntityRecord_def getEntityRecords_def Let_def)

text \<open>The kind \<open>taxonomy\<close> has no entities in the small installation.\<close>

theorem no_entity_no_effects_witness:
  "find_entity (kindEntities example_collaborators ''taxonomy'') ''taxonomy'' ''category'' = None
   \<and> getEntityRecord example_collaborators offline ''taxonomy'' ''category'' (JNum 3) None
       = ([DispatchKindEntities ''taxonomy''], Returned)
   \<and> getEntityRecords example_collaborators offline ''taxonomy'' ''category'' None
       = ([DispatchKindEntities ''taxonomy''], Returned)"
proof -
  have h: "find_entity (kindEntities example_collaborators ''taxonomy'') ''taxonomy'' ''category'' = None"
    by (simp add: example_collaborators_def find_entity_def)
  from no_entity_no_effects [OF h, of offline "JNum 3" None offline None] h show ?thesis
    by simp
qed

subsection \<open>The store: selector calls and notifications leave resolution state alone\<close>

lemma count_Invalidated:
  "count_list (map Invalidated ks) (Invalidated k) = count_list ks k"
  "count_list (map Invalidated ks) (Fulfil k) = 0"
  "count_list (map Invalidated ks) (Called l) = 0"
  "count_list (map Invalidated ks) (Unsubscribed l) = 0"
  "filter (is_resolved p) (map Invalidated ks) = []"
  "dispatched_of (map Invalidated ks) = []"
  by (induction ks) simp_all

lemma dispatched_of_append: "dispatched_of (xs @ ys) = dispatched_of xs @ dispatched_of ys"
  by (induction xs rule: dispatched_of.induct) simp_all

lemma dedup_inv_cong:
  "sys_timers s' = sys_timers s \<Longrightarrow> sys_running s' = sys_running s \<Longrightarrow> sys_metadata s' = sys_metadata s
   \<Longrightarrow> (\<forall>k. fulfilments s' k = fulfilments s k) \<Longrightarrow> (\<forall>k. invalidations s' k = invalidations s k)
   \<Longrightarrow> dedup_inv s' = dedup_inv s"
  by (simp add: dedup_inv_def)

lemma dedup_invD:
  assumes "dedup_inv s"
  shows "count_list (sys_timers s) k + fulfilments s k \<le> 1 + invalidations s k"
    and "count_list (sys_timers s) k \<le> 1"
    and "k \<in> set (sys_timers s) \<Longrightarrow> sys_running s k"
    and "sys_metadata s k = None \<Longrightarrow> fulfilments s k \<le> invalidations s k"
  using assms unfolding dedup_inv_def by blast+

lemma dedup_invI:
  assumes "\<And>k. count_list (sys_timers s) k + fulfilments s k \<le> 1 + invalidations s k"
    and "\<And>k. count_list (sys_timers s) k \<le> 1"
    and "\<And>k. k \<in> set (sys_timers s) \<Longrightarrow> sys_running s k"
    and "\<And>k. sys_metadata s k = None \<Longrightarrow> fulfilments s k \<le> invalidations s k"
  shows "dedup_inv s"
  unfolding dedup_inv_def using assms by blast

lemma quiet_same:
  assumes "sys_timers s' = sys_timers s" "sys_running s' = sys_running s" "sys_metadata s' = sys_metadata s"
    "sys_entries s' = sys_entries s"
    "\<forall>k. fulfilments s' k = fulfilments s k" "\<forall>k. clearings s' k = clearings s k"
    "sys_state_id s' = sys_state_id s" "sys_root s' = sys_root s"
    "sys_pending s' = sys_pending s" "sys_next s' = sys_next s" "dispatched s' = dispatched s"
  shows "quiet s s'"
proof -
  have "\<forall>k. invalidations s' k = invalidations s k"
    using assms by (simp add: invalidations_def)
  then have "dedup_inv s' = dedup_inv s"
    using assms by (intro dedup_inv_cong) simp_all
  then show ?thesis
    unfolding quiet_def using assms by simp
qed

lemma quiet_refl: "quiet s s"
  by (simp add: quiet_def)

lemma quiet_trans [trans]:
  assumes "quiet s s'" "quiet s' s''"
  shows "quiet s s''"
proof -
  obtain n1 where n1: "sys_timers s' = sys_timers s @ n1"
    using assms(1) unfolding quiet_def by blast
  obtain n2 where n2: "sys_timers s'' = sys_timers s' @ n2"
    using assms(2) unfolding quiet_def by blast
  have t: "\<exists>new. sys_timers s'' = sys_timers s @ new"
    using n1 n2 by simp
  have m: "sys_metadata s' = sys_metadata s"
    using assms(1) by (simp add: quiet_def)
  have c: "\<forall>k. sys_metadata s k \<noteq> None \<longrightarrow> count_list (sys_timers s'') k = count_list (sys_timers s) k"
    using assms m unfolding quiet_def by (elim conjE) simp
  show ?thesis
    using assms t c unfolding quiet_def by (elim conjE, intro conjI) simp_all
qed

lemma dedup_schedule:
  assumes i: "dedup_inv s" and nr: "\<not> sys_running s k0" and ns: "sys_metadata s k0 = None"
  shows "dedup_inv (s\<lparr>sys_running := (sys_running s)(k0 := True), sys_timers := sys_timers s @ [k0]\<rparr>)"
    (is "dedup_inv ?s'")
proof (rule dedup_invI)
  have a: "k0 \<notin> set (sys_timers s)"
    using dedup_invD(3) [OF i] nr by blast
  have c: "count_list (sys_timers s) k0 = 0"
    using a by (simp add: count_list_0_iff)
  have b: "fulfilments s k0 \<le> invalidations s k0"
    using dedup_invD(4) [OF i ns] .
  have f: "fulfilments ?s' k = fulfilments s k" and v: "invalidations ?s' k = invalidations s k" for k
    by (simp_all add: fulfilments_def invalidations_def clearings_def dispatched_def)
  fix k
  note ik = dedup_invD [OF i, of k]
  show "count_list (sys_timers ?s') k + fulfilments ?s' k \<le> 1 + invalidations ?s' k"
    unfolding f v using ik(1) b c by (cases "k = k0") simp_all
  show "count_list (sys_timers ?s') k \<le> 1"
    using ik(2) c by (cases "k = k0") simp_all
  show "sys_running ?s' k" if "k \<in> set (sys_timers ?s')"
    using that ik(3) by (cases "k = k0") simp_all
  show "fulfilments ?s' k \<le> invalidations ?s' k" if "sys_metadata ?s' k = None"
    unfolding f v using that ik(4) by simp
qed

lemma quiet_fulfillSelector: "quiet s (fulfillSelector res s n a)"
proof (cases res)
  case (Resolver f)
  show ?thesis
  proof (cases "fulfillSelector res s n a = s")
    case True
    then show ?thesis by (simp add: quiet_refl)
  next
    case False
    then have sched: "fulfillSelector res s n a =
        s\<lparr>sys_running := (sys_running s)((n, a) := True), sys_timers := sys_timers s @ [(n, a)]\<rparr>"
      and nr: "\<not> sys_running s (n, a)" and ns: "sys_metadata s (n, a) = None"
      using Resolver by (auto simp: fulfillSelector_def hasStartedResolution_def split: if_splits)
    have d: "dedup_inv s \<longrightarrow> dedup_inv (fulfillSelector res s n a)"
      unfolding sched using dedup_schedule [OF _ nr ns] by blast
    have t: "\<forall>k. sys_metadata s k \<noteq> None \<longrightarrow>
         count_list (sys_timers (fulfillSelector res s n a)) k = count_list (sys_timers s) k"
      unfolding sched using ns by auto
    show ?thesis
      unfolding quiet_def using d t by (simp add: sched fulfilments_def clearings_def dispatched_def)
  qed
qed

lemma quiet_selectorResolver: "quiet s (selectorResolver opts s n a)"
  by (simp add: selectorResolver_def quiet_refl quiet_fulfillSelector split: option.splits)

lemma quiet_trace:
  assumes "\<forall>k. ob \<noteq> Fulfil k" "\<forall>act. ob \<noteq> Dispatched act" "\<forall>k. ob \<noteq> Invalidated k"
  shows "quiet s (s\<lparr>sys_trace := sys_trace s @ [ob]\<rparr>)"
  using assms
  by (intro quiet_same) (cases ob; simp add: fulfilments_def clearings_def dispatched_def dispatched_of_append)+

lemma quiet_unsubscribe: "quiet s (unsubscribe s l)"
  by (intro quiet_same)
    (simp_all add: fulfilments_def clearings_def unsubscribe_def dispatched_def dispatched_of_append)

lemma quiet_run_listener: "quiet s (run_listener opts s l lst)"
proof (cases lst)
  case External
  then show ?thesis by (simp add: quiet_refl)
next
  case (Awaiting k)
  obtain n a where k: "k = (n, a)" by (cases k)
  show ?thesis
  proof (cases "hasFinishedResolution (sys_metadata s) n a")
    case True
    let ?s1 = "unsubscribe s l"
    let ?s2 = "selectorResolver opts ?s1 n a"
    let ?s3 = "?s2\<lparr>sys_trace := sys_trace ?s2 @ [Resolved l (selector_value opts ?s1 n a)]\<rparr>"
    have "quiet s ?s1" by (rule quiet_unsubscribe)
    also have "quiet ?s1 ?s2" by (rule quiet_selectorResolver)
    also have "quiet ?s2 ?s3" by (simp add: quiet_trace)
    finally have "quiet s ?s3" .
    moreover have "run_listener opts s l lst = ?s3"
      using True Awaiting k by (simp add: Let_def)
    ultimately show ?thesis by simp
  next
    case False
    then show ?thesis using Awaiting k by (simp add: quiet_refl)
  qed
qed

lemma quiet_wrappers: "quiet s (s\<lparr>sys_wrappers := w\<rparr>)"
  by (intro quiet_same) (simp_all add: fulfilments_def clearings_def dispatched_def)

lemma quiet_run_wrapper: "quiet s (run_wrapper opts s l)"
proof (cases "sys_wrappers s l")
  case None
  then show ?thesis by (simp add: run_wrapper_def quiet_refl)
next
  case (Some w)
  let ?s1 = "s\<lparr>sys_wrappers := (sys_wrappers s)(l \<mapsto> w\<lparr>w_lastState := sys_state_id s\<rparr>)\<rparr>"
  let ?s2 = "?s1\<lparr>sys_trace := sys_trace ?s1 @ [Called l]\<rparr>"
  have 1: "quiet s ?s1" by (rule quiet_wrappers)
  have 2: "quiet ?s1 ?s2" by (rule quiet_trace) simp_all
  have 3: "quiet ?s2 (run_listener opts ?s2 l (w_listener w))" by (rule quiet_run_listener)
  show ?thesis
  proof (cases "sys_state_id s \<noteq> w_lastState w")
    case True
    then have "run_wrapper opts s l = run_listener opts ?s2 l (w_listener w)"
      using Some by (simp add: run_wrapper_def Let_def)
    then show ?thesis using quiet_trans [OF quiet_trans [OF 1 2] 3] by simp
  next
    case False
    then have "run_wrapper opts s l = ?s1"
      using Some by (simp add: run_wrapper_def Let_def)
    then show ?thesis using 1 by simp
  qed
qed

lemma quiet_notify: "quiet s (notify opts s ls)"
proof (induction ls arbitrary: s)
  case Nil
  then show ?case by (simp add: quiet_refl)
next
  case (Cons l ls)
  have "quiet s (run_wrapper opts s l)" by (rule quiet_run_wrapper)
  also have "quiet (run_wrapper opts s l) (notify opts (run_wrapper opts s l) ls)" by (rule Cons.IH)
  finally show ?case by simp
qed

lemma metadataReducer_start: "metadataReducer m (START_RESOLUTION n a) (n, a) \<noteq> None"
  by (auto split: option.splits status.splits)

lemma metadataReducer_cleared:
  "metadataReducer m act k = None \<Longrightarrow> m k \<noteq> None \<Longrightarrow> act = INVALIDATE_RESOLUTION (fst k) (snd k)"
  by (cases act; cases k) (auto split: option.splits status.splits if_splits)

lemma reduce_fields:
  "sys_timers (reduce opts s act) = sys_timers s"
  "sys_running (reduce opts s act) = sys_running s"
  "sys_pending (reduce opts s act) = sys_pending s"
  "sys_wrappers (reduce opts s act) = sys_wrappers s"
  "sys_subscribed (reduce opts s act) = sys_subscribed s"
  "sys_next (reduce opts s act) = sys_next s"
  "sys_trace (reduce opts s act) = sys_trace s @ map Invalidated (invalidated_by opts s act) @ [Dispatched act]"
  by (simp_all add: reduce_def Let_def)

lemma clear_entries_Nil: "clear_entries m [] = m"
  by (simp add: clear_entries_def)

lemma reduce_metadata:
  "sys_metadata (reduce opts s act) =
     (case act of
        Meta m \<Rightarrow> metadataReducer (clear_entries (sys_metadata s) (invalidated_by opts s act)) m
      | Root b \<Rightarrow> clear_entries (sys_metadata s) (invalidated_by opts s act))"
  by (simp add: reduce_def Let_def clear_entries_Nil split: action.splits)

lemma reduce_fulfilments: "fulfilments (reduce opts s act) k = fulfilments s k"
  by (simp add: fulfilments_def reduce_fields count_Invalidated)

lemma dispatched_reduce: "dispatched (reduce opts s act) = dispatched s @ [act]"
  by (simp add: dispatched_def reduce_fields dispatched_of_append count_Invalidated)

lemma reduce_invalidations:
  "invalidations (reduce opts s act) k =
     invalidations s k + count_list (invalidated_by opts s act) k
     + (if act = Meta (INVALIDATE_RESOLUTION (fst k) (snd k)) then 1 else 0)"
  by (simp add: invalidations_def clearings_def dispatched_reduce reduce_fields count_Invalidated)

lemma reduce_cleared:
  assumes "sys_metadata (reduce opts s act) k = None" "sys_metadata s k \<noteq> None"
  shows "invalidations s k < invalidations (reduce opts s act) k"
proof (cases "k \<in> set (invalidated_by opts s act)")
  case True
  then have "count_list (invalidated_by opts s act) k \<noteq> 0"
    by (simp add: count_list_0_iff)
  then show ?thesis
    by (simp add: reduce_invalidations)
next
  case False
  then have kept: "clear_entries (sys_metadata s) (invalidated_by opts s act) k \<noteq> None"
    using assms(2) by (simp add: clear_entries_def)
  show ?thesis
  proof (cases act)
    case (Meta m)
    then have "m = INVALIDATE_RESOLUTION (fst k) (snd k)"
      using assms(1) kept metadataReducer_cleared by (simp add: reduce_metadata) blast
    then show ?thesis
      using Meta by (simp add: reduce_invalidations)
  next
    case (Root b)
    then show ?thesis
      using assms(1) kept by (simp add: reduce_metadata)
  qed
qed

lemma quiet_metadata: "quiet s s' \<Longrightarrow> sys_metadata s' = sys_metadata s"
  by (simp add: quiet_def)

lemma quiet_dedup: "quiet s s' \<Longrightarrow> dedup_inv s \<Longrightarrow> dedup_inv s'"
  by (simp add: quiet_def)

lemma quiet_fulfilments: "quiet s s' \<Longrightarrow> fulfilments s' k = fulfilments s k"
  by (cases k) (simp add: quiet_def)


lemma quiet_invalidations: "quiet s s' \<Longrightarrow> invalidations s' k = invalidations s k"
  by (cases k) (simp add: quiet_def invalidations_def)

lemma quiet_timers:
  "quiet s s' \<Longrightarrow> sys_metadata s k \<noteq> None \<Longrightarrow> count_list (sys_timers s') k = count_list (sys_timers s) k"
  by (cases k) (simp add: quiet_def)


lemma quiet_state_id: "quiet s s' \<Longrightarrow> sys_state_id s' = sys_state_id s"
  by (simp add: quiet_def)

lemma quiet_next: "quiet s s' \<Longrightarrow> sys_next s' = sys_next s"
  by (simp add: quiet_def)


lemma quiet_root: "quiet s s' \<Longrightarrow> sys_root s' = sys_root s"
  by (simp add: quiet_def)

lemma dedup_inv_reduce:
  assumes i: "dedup_inv s"
  shows "dedup_inv (reduce opts s act)"
proof (rule dedup_invI)
  fix k
  note ik = dedup_invD [OF i, of k]
  have v: "invalidations s k \<le> invalidations (reduce opts s act) k"
    by (simp add: reduce_invalidations)
  show "count_list (sys_timers (reduce opts s act)) k + fulfilments (reduce opts s act) k
          \<le> 1 + invalidations (reduce opts s act) k"
    using ik(1) v by (simp add: reduce_fields reduce_fulfilments)
  show "count_list (sys_timers (reduce opts s act)) k \<le> 1"
    using ik(2) by (simp add: reduce_fields)
  show "sys_running (reduce opts s act) k" if "k \<in> set (sys_timers (reduce opts s act))"
    using that ik(3) by (simp add: reduce_fields)
  show "fulfilments (reduce opts s act) k \<le> invalidations (reduce opts s act) k"
    if n: "sys_metadata (reduce opts s act) k = None"
  proof (cases "sys_metadata s k = None")
    case True
    then show ?thesis
      using ik(4) v by (simp add: reduce_fulfilments)
  next
    case False
    have "invalidations s k < invalidations (reduce opts s act) k"
      using n False by (rule reduce_cleared)
    then show ?thesis
      using ik(1) by (simp add: reduce_fulfilments)
  qed
qed

lemma dedup_inv_dispatch: "dedup_inv s \<Longrightarrow> dedup_inv (store_dispatch opts s act)"
  unfolding store_dispatch_def
  by (rule quiet_dedup [OF quiet_notify]) (rule dedup_inv_reduce)

lemma dedup_inv_pending: "dedup_inv (s\<lparr>sys_pending := p\<rparr>) = dedup_inv s"
  by (rule dedup_inv_cong) (simp_all add: fulfilments_def invalidations_def clearings_def dispatched_def)

lemma dedup_inv_settle: "dedup_inv s \<Longrightarrow> dedup_inv (settle opts s k r)"
  by (simp add: settle_def Let_def dedup_inv_dispatch dedup_inv_pending)

lemma dedup_inv_subscribe: "dedup_inv (subscribe s lst) = dedup_inv s"
  by (rule dedup_inv_cong) (simp_all add: fulfilments_def subscribe_def invalidations_def clearings_def dispatched_def)

lemma dedup_inv_selectorResolver: "dedup_inv s \<Longrightarrow> dedup_inv (selectorResolver opts s n a)"
  by (rule quiet_dedup [OF quiet_selectorResolver])

lemma dedup_inv_resolveSelect: "dedup_inv s \<Longrightarrow> dedup_inv (resolveSelect opts s n a)"
proof -
  assume i: "dedup_inv s"
  let ?s1 = "selectorResolver opts s n a"
  have 1: "dedup_inv ?s1" using i by (rule dedup_inv_selectorResolver)
  have "quiet ?s1 (?s1\<lparr>sys_trace := sys_trace ?s1 @ [Resolved (sys_next ?s1) (selector_value opts s n a)]\<rparr>)"
    by (rule quiet_trace) simp_all
  then have 2: "dedup_inv (?s1\<lparr>sys_trace := sys_trace ?s1 @ [Resolved (sys_next ?s1) (selector_value opts s n a)]\<rparr>)"
    using 1 by (rule quiet_dedup)
  have "dedup_inv (?s1\<lparr>sys_next := Suc (sys_next ?s1),
              sys_trace := sys_trace ?s1 @ [Resolved (sys_next ?s1) (selector_value opts s n a)]\<rparr>)
        = dedup_inv (?s1\<lparr>sys_trace := sys_trace ?s1 @ [Resolved (sys_next ?s1) (selector_value opts s n a)]\<rparr>)"
    by (rule dedup_inv_cong) (simp_all add: fulfilments_def invalidations_def clearings_def dispatched_def)
  then show ?thesis
    using 1 2 by (simp add: resolveSelect_def Let_def dedup_inv_subscribe)
qed

lemma dedup_inv_timeout:
  assumes i: "dedup_inv s" and t: "sys_timers s = k # ks"
  shows "dedup_inv (timeout_callback opts (s\<lparr>sys_timers := ks\<rparr>) k)"
proof -
  define s1 where "s1 = s\<lparr>sys_timers := ks, sys_running := (sys_running s)(k := False)\<rparr>"
  define s2 where "s2 = reduce opts s1 (Meta (START_RESOLUTION (fst k) (snd k)))"
  define s3 where "s3 = notify opts s2 (sys_subscribed s2)"
  define s4 where "s4 = s3\<lparr>sys_trace := sys_trace s3 @ [Fulfil k], sys_pending := sys_pending s3 @ [k]\<rparr>"
  have r: "timeout_callback opts (s\<lparr>sys_timers := ks\<rparr>) k = s4"
    by (simp add: timeout_callback_def store_dispatch_def Let_def s1_def s2_def s3_def s4_def)
  have c0: "count_list ks k = 0"
    using dedup_invD(2) [OF i, of k] t by simp
  have f0: "fulfilments s k \<le> invalidations s k"
    using dedup_invD(1) [OF i, of k] t by simp
  have f1: "fulfilments s1 k' = fulfilments s k'" and v1: "invalidations s1 k' = invalidations s k'" for k'
    by (simp_all add: s1_def fulfilments_def invalidations_def clearings_def dispatched_def)
  have i1: "dedup_inv s1"
  proof (rule dedup_invI)
    fix k'
    note ik = dedup_invD [OF i, of k']
    show "count_list (sys_timers s1) k' + fulfilments s1 k' \<le> 1 + invalidations s1 k'"
      unfolding f1 v1 using ik(1) t by (cases "k' = k") (simp_all add: s1_def)
    show "count_list (sys_timers s1) k' \<le> 1"
      using ik(2) t by (cases "k' = k") (simp_all add: s1_def)
    show "sys_running s1 k'" if "k' \<in> set (sys_timers s1)"
    proof (cases "k' = k")
      case True
      then show ?thesis using that c0 by (simp add: s1_def count_list_0_iff)
    next
      case False
      then show ?thesis using that ik(3) t by (simp add: s1_def)
    qed
    show "fulfilments s1 k' \<le> invalidations s1 k'" if "sys_metadata s1 k' = None"
      unfolding f1 v1 using that ik(4) by (simp add: s1_def)
  qed
  have i2: "dedup_inv s2" unfolding s2_def using i1 by (rule dedup_inv_reduce)
  have m2: "sys_metadata s2 k \<noteq> None"
    unfolding s2_def using metadataReducer_start [of _ "fst k" "snd k"] by (simp add: reduce_metadata)
  have c2: "count_list (sys_timers s2) k = 0"
    using c0 by (simp add: s2_def reduce_fields s1_def)
  have f2: "fulfilments s2 k = fulfilments s k"
    by (simp add: s2_def reduce_fulfilments f1)
  have v2: "invalidations s k \<le> invalidations s2 k"
    by (simp add: s2_def reduce_invalidations v1)
  have q: "quiet s2 s3" unfolding s3_def by (rule quiet_notify)
  have i3: "dedup_inv s3" using q i2 by (rule quiet_dedup)
  have m3: "sys_metadata s3 k \<noteq> None" using m2 unfolding quiet_metadata [OF q] .
  have c3: "count_list (sys_timers s3) k = 0" using c2 unfolding quiet_timers [OF q m2] .
  have f3: "fulfilments s3 k \<le> invalidations s3 k"
    using f0 f2 v2 by (simp add: quiet_fulfilments [OF q] quiet_invalidations [OF q])
  have f4: "fulfilments s4 k' = fulfilments s3 k' + (if k' = k then 1 else 0)"
    and v4: "invalidations s4 k' = invalidations s3 k'" for k'
    by (simp_all add: s4_def fulfilments_def invalidations_def clearings_def dispatched_def dispatched_of_append)
  have i4: "dedup_inv s4"
  proof (rule dedup_invI)
    fix k'
    note ik = dedup_invD [OF i3, of k']
    show "count_list (sys_timers s4) k' + fulfilments s4 k' \<le> 1 + invalidations s4 k'"
      unfolding f4 v4 using ik(1) c3 f3 by (cases "k' = k") (simp_all add: s4_def)
    show "count_list (sys_timers s4) k' \<le> 1"
      using ik(2) by (simp add: s4_def)
    show "sys_running s4 k'" if "k' \<in> set (sys_timers s4)"
      using that ik(3) by (simp add: s4_def)
    show "fulfilments s4 k' \<le> invalidations s4 k'" if "sys_metadata s4 k' = None"
      unfolding f4 v4 using that ik(4) m3 by (cases "k' = k") (simp_all add: s4_def)
  qed
  show ?thesis unfolding r by (rule i4)
qed

lemma dedup_inv_step: "dedup_inv s \<Longrightarrow> dedup_inv (step opts s ev)"
proof (cases ev)
  case Tick
  assume "dedup_inv s"
  then show ?thesis using Tick dedup_inv_timeout [of s _ _ opts]
    by (cases "sys_timers s") simp_all
qed (simp_all add: dedup_inv_selectorResolver dedup_inv_settle dedup_inv_dispatch dedup_inv_subscribe dedup_inv_resolveSelect)

lemma dedup_inv_run: "dedup_inv s \<Longrightarrow> dedup_inv (run opts s evs)"
  unfolding run_def by (induction evs arbitrary: s) (simp_all add: dedup_inv_step)

lemma dedup_inv_init: "dedup_inv (init r)"
  by (simp add: dedup_inv_def init_def fulfilments_def)

lemma selectorResolver_skips:
  assumes "sys_running s (n, a) \<or> (\<exists>f. opt_resolvers opts n = Some (Resolver (Some f)) \<and> f (sys_root s) a)
           \<or> hasStartedResolution (sys_metadata s) n a"
  shows "selectorResolver opts s n a = s"
proof (cases "opt_resolvers opts n")
  case None
  then show ?thesis by (simp add: selectorResolver_def)
next
  case (Some res)
  obtain isF where r: "res = Resolver isF" by (cases res)
  show ?thesis
    using assms Some r by (cases isF) (auto simp: selectorResolver_def fulfillSelector_def)
qed


lemma metadata_store_dispatch:
  "sys_metadata (store_dispatch opts s act) = sys_metadata (reduce opts s act)"
  unfolding store_dispatch_def by (simp add: quiet_metadata [OF quiet_notify])




subsection \<open>The invalidation middleware\<close>

lemma entries_inv_cong:
  "sys_metadata s' = sys_metadata s \<Longrightarrow> sys_entries s' = sys_entries s \<Longrightarrow> entries_inv s' = entries_inv s"
  by (simp add: entries_inv_def)

lemma entries_invD: "entries_inv s \<Longrightarrow> sys_metadata s k \<noteq> None \<Longrightarrow> k \<in> set (sys_entries s)"
  unfolding entries_inv_def by blast

lemma entries_inv_quiet: "quiet s s' \<Longrightarrow> entries_inv s \<Longrightarrow> entries_inv s'"
  by (simp add: quiet_def entries_inv_def)

lemma entries_after_keeps:
  "k \<in> set ks \<Longrightarrow> (\<forall>n a. act = Meta (INVALIDATE_RESOLUTION n a) \<longrightarrow> k \<noteq> (n, a)) \<Longrightarrow> k \<in> set (entries_after ks act)"
  by (induction ks act rule: entries_after.induct) auto

lemma entries_after_adds:
  "(n, a) \<in> set (entries_after ks (Meta (START_RESOLUTION n a)))"
  "(n, a) \<in> set (entries_after ks (Meta (FINISH_RESOLUTION n a)))"
  by simp_all

lemma entries_inv_reduce:
  assumes i: "entries_inv s"
  shows "entries_inv (reduce opts s act)"
  unfolding entries_inv_def
proof (intro allI impI)
  fix k
  let ?cs = "invalidated_by opts s act"
  let ?kept = "clear_entries (sys_metadata s) ?cs"
  let ?ks = "filter (\<lambda>k. k \<notin> set ?cs) (sys_entries s)"
  assume m: "sys_metadata (reduce opts s act) k \<noteq> None"
  have e: "sys_entries (reduce opts s act) = entries_after ?ks act"
    by (simp add: reduce_def Let_def)
  have kept: "k \<in> set ?ks" if "?kept k \<noteq> None"
  proof -
    have "k \<notin> set ?cs" "sys_metadata s k \<noteq> None"
      using that by (auto simp: clear_entries_def split: if_splits)
    then show ?thesis
      using entries_invD [OF i, of k] by simp
  qed
  show "k \<in> set (sys_entries (reduce opts s act))"
  proof (cases act)
    case (Root b)
    then have "?kept k \<noteq> None"
      using m by (simp add: reduce_metadata)
    then show ?thesis
      unfolding e using kept Root by simp
  next
    case (Meta ma)
    show ?thesis
    proof (cases ma)
      case (START_RESOLUTION n a)
      show ?thesis
      proof (cases "k = (n, a)")
        case True
        then show ?thesis
          unfolding e using Meta START_RESOLUTION by simp
      next
        case False
        then have "?kept k \<noteq> None"
          using m Meta START_RESOLUTION by (auto simp: reduce_metadata split: option.splits status.splits)
        then show ?thesis
          unfolding e using kept Meta START_RESOLUTION by (intro entries_after_keeps) simp_all
      qed
    next
      case (FINISH_RESOLUTION n a)
      show ?thesis
      proof (cases "k = (n, a)")
        case True
        then show ?thesis
          unfolding e using Meta FINISH_RESOLUTION by simp
      next
        case False
        then have "?kept k \<noteq> None"
          using m Meta FINISH_RESOLUTION by (simp add: reduce_metadata)
        then show ?thesis
          unfolding e using kept Meta FINISH_RESOLUTION by (intro entries_after_keeps) simp_all
      qed
    next
      case (INVALIDATE_RESOLUTION n a)
      then have "k \<noteq> (n, a)" and "?kept k \<noteq> None"
        using m Meta by (auto simp: reduce_metadata split: if_splits)
      then show ?thesis
        unfolding e using kept Meta INVALIDATE_RESOLUTION by (intro entries_after_keeps) simp_all
    qed
  qed
qed

lemma entries_inv_dispatch: "entries_inv s \<Longrightarrow> entries_inv (store_dispatch opts s act)"
  unfolding store_dispatch_def
  by (rule entries_inv_quiet [OF quiet_notify]) (rule entries_inv_reduce)

lemma entries_inv_step:
  assumes i: "entries_inv s"
  shows "entries_inv (step opts s e)"
proof (cases e)
  case (Select n a)
  then show ?thesis
    using entries_inv_quiet [OF quiet_selectorResolver i] by simp
next
  case Tick
  show ?thesis
  proof (cases "sys_timers s")
    case Nil
    then show ?thesis using Tick i by simp
  next
    case (Cons k ks)
    define s1 where "s1 = s\<lparr>sys_timers := ks, sys_running := (sys_running s)(k := False)\<rparr>"
    define s2 where "s2 = store_dispatch opts s1 (Meta (START_RESOLUTION (fst k) (snd k)))"
    have "entries_inv s1"
      using i by (simp add: s1_def entries_inv_def)
    then have "entries_inv s2"
      unfolding s2_def by (rule entries_inv_dispatch)
    then have "entries_inv (s2\<lparr>sys_trace := sys_trace s2 @ [Fulfil k], sys_pending := sys_pending s2 @ [k]\<rparr>)"
      by (simp add: entries_inv_def)
    then show ?thesis
      using Tick Cons by (simp add: timeout_callback_def Let_def s1_def s2_def)
  qed
next
  case (Settle k returned)
  have "entries_inv (s\<lparr>sys_pending := remove1 k (sys_pending s)\<rparr>)"
    using i by (simp add: entries_inv_def)
  then show ?thesis
    using Settle i by (simp add: settle_def Let_def entries_inv_dispatch)
next
  case (DispatchEv act)
  then show ?thesis
    using i by (simp add: entries_inv_dispatch)
next
  case Subscribe
  then show ?thesis
    using i by (simp add: subscribe_def entries_inv_def)
next
  case (ResolveSelect n a)
  have "entries_inv (selectorResolver opts s n a)"
    using quiet_selectorResolver i by (rule entries_inv_quiet)
  then show ?thesis
    using ResolveSelect by (simp add: resolveSelect_def Let_def subscribe_def entries_inv_def)
qed

lemma entries_inv_run: "entries_inv s \<Longrightarrow> entries_inv (run opts s evs)"
  unfolding run_def by (induction evs arbitrary: s) (simp_all add: entries_inv_step)

lemma entries_inv_init: "entries_inv (init r)"
  by (simp add: entries_inv_def init_def)

text \<open>
  In every run, the middleware clears every resolution entry the action invalidates:
  after the dispatch of an action that is not a metadata action none of them is left.
\<close>

lemma middleware_clears:
  assumes "should_invalidate opts act k"
  shows "clear_entries (sys_metadata (run opts (init r) evs)) (invalidated_by opts (run opts (init r) evs) act) k
           = None"
proof (cases "sys_metadata (run opts (init r) evs) k")
  case None
  then show ?thesis by (simp add: clear_entries_def)
next
  case (Some st)
  have "entries_inv (run opts (init r) evs)"
    using entries_inv_init by (rule entries_inv_run)
  then have "k \<in> set (sys_entries (run opts (init r) evs))"
    using Some by (intro entries_invD) simp_all
  then have "k \<in> set (invalidated_by opts (run opts (init r) evs) act)"
    using Some assms by (simp add: invalidated_by_def)
  then show ?thesis by (simp add: clear_entries_def)
qed

lemma invalidated_after_dispatch:
  assumes "should_invalidate opts (Root b) k"
  shows "sys_metadata (store_dispatch opts (run opts (init r) evs) (Root b)) k = None"
  using middleware_clears [OF assms] by (simp add: metadata_store_dispatch reduce_metadata)

subsection \<open>Resolvers run once\<close>

text \<open>
  C1, as the code has it. In every run of a store from its creation (selectors called
  with any arguments, timers firing, fulfilments returning or raising, actions
  dispatched, resolutions invalidated, listeners subscribed, \<open>resolveSelect\<close> called,
  in any order) the \<open>fulfill\<close> of a resolver is invoked, for each selector name and
  argument tuple, at most once more than the resolution of that key was invalidated:
  at most once when it never was. A call of a selector with a resolver changes nothing
  when the cache marks the key as running, when \<open>isFulfilled\<close> answers true, or when
  the resolution has started.
\<close>

theorem fulfil_at_most_once:
  "fulfilments (run opts (init r) evs) k \<le> 1 + invalidations (run opts (init r) evs) k
   \<and> (invalidations (run opts (init r) evs) k = 0 \<longrightarrow> fulfilments (run opts (init r) evs) k \<le> 1)
   \<and> (\<forall>s n a. sys_running s (n, a)
                \<or> (\<exists>f. opt_resolvers opts n = Some (Resolver (Some f)) \<and> f (sys_root s) a)
                \<or> hasStartedResolution (sys_metadata s) n a
        \<longrightarrow> selectorResolver opts s n a = s)"
proof -
  have "dedup_inv (run opts (init r) evs)"
    using dedup_inv_init by (rule dedup_inv_run)
  then have a: "fulfilments (run opts (init r) evs) k \<le> 1 + invalidations (run opts (init r) evs) k"
    using dedup_invD(1) [of "run opts (init r) evs" k] by simp
  then have b: "invalidations (run opts (init r) evs) k = 0 \<longrightarrow> fulfilments (run opts (init r) evs) k \<le> 1"
    by simp
  have c: "\<forall>(s :: ('a, 'b, 'c, 'd) sys) n a. sys_running s (n, a)
                \<or> (\<exists>f. opt_resolvers opts n = Some (Resolver (Some f)) \<and> f (sys_root s) a)
                \<or> hasStartedResolution (sys_metadata s) n a
        \<longrightarrow> selectorResolver opts s n a = s"
    by (intro allI impI) (rule selectorResolver_skips)
  show ?thesis
    using a b c by (intro conjI)
qed

text \<open>
  \<open>getWidget( 1 )\<close> called twice, then the timer, then a third call: one fulfilment and
  no invalidation. After the first call the key is marked as running, and a second
  call changes nothing.
\<close>

lemmas eval_defs = run_def init_def widget_options_def selectorResolver_def fulfillSelector_def
  hasStartedResolution_def hasFinishedResolution_def timeout_callback_def store_dispatch_def reduce_def
  invalidated_by_def should_invalidate_def clear_entries_def
  Let_def settle_def resolveSelect_def subscribe_def run_wrapper_def unsubscribe_def selector_value_def

lemma widget_run:
  "fulfilments (run widget_options (init 0)
       [Select ''getWidget'' [JNum 1], Select ''getWidget'' [JNum 1], Tick, Select ''getWidget'' [JNum 1]])
     (''getWidget'', [JNum 1]) \<ge> 1"
  "invalidations (run widget_options (init 0)
       [Select ''getWidget'' [JNum 1], Select ''getWidget'' [JNum 1], Tick, Select ''getWidget'' [JNum 1]])
     (''getWidget'', [JNum 1]) = 0"
  by (simp_all add: eval_defs fulfilments_def invalidations_def clearings_def dispatched_def)

lemma widget_running:
  "sys_running (run widget_options (init 0) [Select ''getWidget'' [JNum 1]]) (''getWidget'', [JNum 1])"
  by (simp add: eval_defs)

theorem fulfil_at_most_once_witness:
  "invalidations (run widget_options (init 0)
       [Select ''getWidget'' [JNum 1], Select ''getWidget'' [JNum 1], Tick, Select ''getWidget'' [JNum 1]])
     (''getWidget'', [JNum 1]) = 0
   \<and> fulfilments (run widget_options (init 0)
       [Select ''getWidget'' [JNum 1], Select ''getWidget'' [JNum 1], Tick, Select ''getWidget'' [JNum 1]])
     (''getWidget'', [JNum 1]) = 1
   \<and> sys_running (run widget_options (init 0) [Select ''getWidget'' [JNum 1]]) (''getWidget'', [JNum 1])
   \<and> selectorResolver widget_options (run widget_options (init 0) [Select ''getWidget'' [JNum 1]])
         ''getWidget'' [JNum 1]
       = run widget_options (init 0) [Select ''getWidget'' [JNum 1]]"
proof -
  note inst = fulfil_at_most_once [of widget_options 0
       "[Select ''getWidget'' [JNum 1], Select ''getWidget'' [JNum 1], Tick, Select ''getWidget'' [JNum 1]]"
       "(''getWidget'', [JNum 1])"]
  have "fulfilments (run widget_options (init 0)
       [Select ''getWidget'' [JNum 1], Select ''getWidget'' [JNum 1], Tick, Select ''getWidget'' [JNum 1]])
     (''getWidget'', [JNum 1]) = 1"
    using widget_run inst [THEN conjunct2, THEN conjunct1] by simp
  moreover have "selectorResolver widget_options (run widget_options (init 0) [Select ''getWidget'' [JNum 1]])
         ''getWidget'' [JNum 1]
       = run widget_options (init 0) [Select ''getWidget'' [JNum 1]]"
    using inst [THEN conjunct2, THEN conjunct2, rule_format,
        of "run widget_options (init 0) [Select ''getWidget'' [JNum 1]]" "''getWidget''" "[JNum 1]"]
      widget_running
    by blast
  ultimately show ?thesis
    using widget_running widget_run(2) by simp
qed

text \<open>
  C1, as the claim states it, fails: \<open>getWidget( 1 )\<close> is called and its timer fires;
  the resolution is invalidated while \<open>fulfill\<close> is awaited, by an
  \<open>invalidateResolution\<close> action or by the action \<open>refresh\<close>, which the resolver's
  \<open>shouldInvalidate\<close> accepts; \<open>getWidget( 1 )\<close> is called again and its timer fires.
  \<open>fulfill\<close> has been invoked twice for the one key, and both invocations are awaited
  still: the resolution never finished.
\<close>

theorem fulfilled_again_after_invalidation:
  "fulfilments (run widget_options (init 0)
       [Select ''getWidget'' [JNum 1], Tick,
        DispatchEv (Meta (INVALIDATE_RESOLUTION ''getWidget'' [JNum 1])),
        Select ''getWidget'' [JNum 1], Tick])
     (''getWidget'', [JNum 1]) = 2
   \<and> sys_pending (run widget_options (init 0)
       [Select ''getWidget'' [JNum 1], Tick,
        DispatchEv (Meta (INVALIDATE_RESOLUTION ''getWidget'' [JNum 1])),
        Select ''getWidget'' [JNum 1], Tick])
     = [(''getWidget'', [JNum 1]), (''getWidget'', [JNum 1])]
   \<and> dispatched (run widget_options (init 0)
       [Select ''getWidget'' [JNum 1], Tick,
        DispatchEv (Meta (INVALIDATE_RESOLUTION ''getWidget'' [JNum 1])),
        Select ''getWidget'' [JNum 1], Tick])
     = [Meta (START_RESOLUTION ''getWidget'' [JNum 1]),
        Meta (INVALIDATE_RESOLUTION ''getWidget'' [JNum 1]),
        Meta (START_RESOLUTION ''getWidget'' [JNum 1])]
   \<and> fulfilments (run widget_options (init 0)
       [Select ''getWidget'' [JNum 1], Tick, DispatchEv (Root ''refresh''),
        Select ''getWidget'' [JNum 1], Tick])
     (''getWidget'', [JNum 1]) = 2
   \<and> dispatched (run widget_options (init 0)
       [Select ''getWidget'' [JNum 1], Tick, DispatchEv (Root ''refresh''),
        Select ''getWidget'' [JNum 1], Tick])
     = [Meta (START_RESOLUTION ''getWidget'' [JNum 1]), Root ''refresh'',
        Meta (START_RESOLUTION ''getWidget'' [JNum 1])]"
  by (simp add: eval_defs fulfilments_def dispatched_def)

subsection \<open>The end of a resolution\<close>











subsection \<open>Listeners: what a notification does\<close>

lemma fulfillSelector_frame:
  "sys_wrappers (fulfillSelector res s n a) = sys_wrappers s"
  "sys_subscribed (fulfillSelector res s n a) = sys_subscribed s"
  "sys_trace (fulfillSelector res s n a) = sys_trace s"
  by (cases res; simp add: fulfillSelector_def)+

lemma selectorResolver_frame:
  "sys_wrappers (selectorResolver opts s n a) = sys_wrappers s"
  "sys_subscribed (selectorResolver opts s n a) = sys_subscribed s"
  "sys_trace (selectorResolver opts s n a) = sys_trace s"
  by (simp_all add: selectorResolver_def fulfillSelector_frame split: option.splits)

lemma counts_append:
  "calls (s\<lparr>sys_trace := sys_trace s @ [ob]\<rparr>) p = calls s p + (if ob = Called p then 1 else 0)"
  "unsubscriptions (s\<lparr>sys_trace := sys_trace s @ [ob]\<rparr>) p = unsubscriptions s p + (if ob = Unsubscribed p then 1 else 0)"
  "resolutions (s\<lparr>sys_trace := sys_trace s @ [ob]\<rparr>) p = resolutions s p + (if is_resolved p ob then 1 else 0)"
  by (simp_all add: calls_def unsubscriptions_def resolutions_def)

lemma counts_trace_eq:
  assumes "sys_trace s' = sys_trace s"
  shows "calls s' p = calls s p" "unsubscriptions s' p = unsubscriptions s p" "resolutions s' p = resolutions s p"
  using assms by (simp_all add: calls_def unsubscriptions_def resolutions_def)

lemma run_listener_wrappers: "sys_wrappers (run_listener opts s l lst) = sys_wrappers s"
proof (cases lst)
  case External
  then show ?thesis by simp
next
  case (Awaiting k)
  then show ?thesis
    by (cases k) (simp add: Let_def selectorResolver_frame unsubscribe_def)
qed

lemma run_listener_idle: "\<not> body_fires s lst \<Longrightarrow> run_listener opts s l lst = s"
  by (cases lst) (auto simp: body_fires_def)

lemma run_listener_fires:
  assumes "body_fires s lst"
  shows "sys_subscribed (run_listener opts s l lst) = filter (\<lambda>x. x \<noteq> l) (sys_subscribed s)"
    and "calls (run_listener opts s l lst) p = calls s p"
    and "unsubscriptions (run_listener opts s l lst) p = unsubscriptions s p + (if p = l then 1 else 0)"
    and "resolutions (run_listener opts s l lst) p = resolutions s p + (if p = l then 1 else 0)"
proof -
  obtain n a where lst: "lst = Awaiting (n, a)" and fin: "hasFinishedResolution (sys_metadata s) n a"
    using assms by (cases lst) (auto simp: body_fires_def)
  define s2 where "s2 = selectorResolver opts (unsubscribe s l) n a"
  have r: "run_listener opts s l lst = s2\<lparr>sys_trace := sys_trace s2 @ [Resolved l (selector_value opts (unsubscribe s l) n a)]\<rparr>"
    using lst fin by (simp add: Let_def s2_def)
  have t2: "sys_trace s2 = sys_trace s @ [Unsubscribed l]"
    and u2: "sys_subscribed s2 = filter (\<lambda>x. x \<noteq> l) (sys_subscribed s)"
    by (simp_all add: s2_def selectorResolver_frame unsubscribe_def)
  show "sys_subscribed (run_listener opts s l lst) = filter (\<lambda>x. x \<noteq> l) (sys_subscribed s)"
    unfolding r using u2 by simp
  show "calls (run_listener opts s l lst) p = calls s p"
    unfolding r by (simp add: calls_def t2)
  show "unsubscriptions (run_listener opts s l lst) p = unsubscriptions s p + (if p = l then 1 else 0)"
    unfolding r by (auto simp add: unsubscriptions_def t2)
  show "resolutions (run_listener opts s l lst) p = resolutions s p + (if p = l then 1 else 0)"
    unfolding r by (simp add: resolutions_def t2)
qed

lemma run_wrapper_wrappers:
  "sys_wrappers (run_wrapper opts s l) =
     (case sys_wrappers s l of None \<Rightarrow> sys_wrappers s
      | Some w \<Rightarrow> (sys_wrappers s)(l \<mapsto> w\<lparr>w_lastState := sys_state_id s\<rparr>))"
  by (simp add: run_wrapper_def Let_def run_listener_wrappers split: option.splits)

lemma run_wrapper_effect_conj:
  "sys_subscribed (run_wrapper opts s l) =
     (if fires s l then filter (\<lambda>x. x \<noteq> l) (sys_subscribed s) else sys_subscribed s) \<and>
   calls (run_wrapper opts s l) p = calls s p + (if p = l \<and> sees_change s l then 1 else 0) \<and>
   unsubscriptions (run_wrapper opts s l) p = unsubscriptions s p + (if p = l \<and> fires s l then 1 else 0) \<and>
   resolutions (run_wrapper opts s l) p = resolutions s p + (if p = l \<and> fires s l then 1 else 0)"
proof (cases "sys_wrappers s l")
  case None
  then show ?thesis
    by (simp add: run_wrapper_def fires_def sees_change_def)
next
  case (Some w)
  define s1 where "s1 = s\<lparr>sys_wrappers := (sys_wrappers s)(l \<mapsto> w\<lparr>w_lastState := sys_state_id s\<rparr>)\<rparr>"
  define s2 where "s2 = s1\<lparr>sys_trace := sys_trace s1 @ [Called l]\<rparr>"
  have sc: "sees_change s l = (sys_state_id s \<noteq> w_lastState w)"
    using Some by (simp add: sees_change_def)
  have sf: "sees_finished s l = body_fires s2 (w_listener w)"
    using Some by (cases "w_listener w") (simp_all add: sees_finished_def body_fires_def s2_def s1_def)
  have c1: "calls s1 p = calls s p" "unsubscriptions s1 p = unsubscriptions s p" "resolutions s1 p = resolutions s p"
    and u1: "sys_subscribed s1 = sys_subscribed s"
    by (simp_all add: s1_def calls_def unsubscriptions_def resolutions_def)
  have c2: "calls s2 p = calls s p + (if p = l then 1 else 0)"
    "unsubscriptions s2 p = unsubscriptions s p" "resolutions s2 p = resolutions s p"
    and u2: "sys_subscribed s2 = sys_subscribed s"
    unfolding s2_def using c1 u1 by (auto simp: counts_append)
  show ?thesis
  proof (cases "sys_state_id s \<noteq> w_lastState w")
    case False
    then have "run_wrapper opts s l = s1"
      using Some by (simp add: run_wrapper_def Let_def s1_def)
    then show ?thesis
      using False c1 u1 sc by (simp add: fires_def)
  next
    case True
    then have r: "run_wrapper opts s l = run_listener opts s2 l (w_listener w)"
      using Some by (simp add: run_wrapper_def Let_def s1_def s2_def)
    show ?thesis
    proof (cases "body_fires s2 (w_listener w)")
      case f: True
      then show ?thesis
        unfolding r using True sc sf c2 u2 by (simp add: run_listener_fires fires_def)
    next
      case f: False
      then show ?thesis
        unfolding r using True sc sf c2 u2 by (simp add: run_listener_idle fires_def)
    qed
  qed
qed

lemma run_wrapper_effect:
  "sys_subscribed (run_wrapper opts s l) =
     (if fires s l then filter (\<lambda>x. x \<noteq> l) (sys_subscribed s) else sys_subscribed s)"
  "calls (run_wrapper opts s l) p = calls s p + (if p = l \<and> sees_change s l then 1 else 0)"
  "unsubscriptions (run_wrapper opts s l) p = unsubscriptions s p + (if p = l \<and> fires s l then 1 else 0)"
  "resolutions (run_wrapper opts s l) p = resolutions s p + (if p = l \<and> fires s l then 1 else 0)"
  using run_wrapper_effect_conj [of opts s l p] by blast+

lemma run_wrapper_quiet_fields:
  "sys_state_id (run_wrapper opts s l) = sys_state_id s"
  "sys_metadata (run_wrapper opts s l) = sys_metadata s"
  "sys_next (run_wrapper opts s l) = sys_next s"
  using quiet_run_wrapper [of s opts l] by (simp_all add: quiet_def)

lemma notify_quiet_fields:
  "sys_state_id (notify opts s ls) = sys_state_id s"
  "sys_metadata (notify opts s ls) = sys_metadata s"
  "sys_next (notify opts s ls) = sys_next s"
  using quiet_notify [of s opts ls] by (simp_all add: quiet_def)

lemma run_wrapper_other:
  assumes "p \<noteq> l"
  shows "sys_wrappers (run_wrapper opts s l) p = sys_wrappers s p"
    and "sees_change (run_wrapper opts s l) p = sees_change s p"
    and "sees_finished (run_wrapper opts s l) p = sees_finished s p"
    and "fires (run_wrapper opts s l) p = fires s p"
proof -
  show w: "sys_wrappers (run_wrapper opts s l) p = sys_wrappers s p"
    using assms by (simp add: run_wrapper_wrappers split: option.splits)
  show c: "sees_change (run_wrapper opts s l) p = sees_change s p"
    by (simp add: sees_change_def w run_wrapper_quiet_fields cong: option.case_cong)
  show f: "sees_finished (run_wrapper opts s l) p = sees_finished s p"
    by (simp add: sees_finished_def w run_wrapper_quiet_fields cong: option.case_cong listener.case_cong)
  show "fires (run_wrapper opts s l) p = fires s p"
    by (simp add: fires_def c f)
qed

lemma notify_wrappers:
  "sys_wrappers (notify opts s ls) l =
     (if l \<in> set ls then map_option (\<lambda>w. w\<lparr>w_lastState := sys_state_id s\<rparr>) (sys_wrappers s l)
      else sys_wrappers s l)"
proof (induction ls arbitrary: s)
  case Nil
  then show ?case by simp
next
  case (Cons l0 ls)
  show ?case
  proof (cases "l = l0")
    case True
    have "sys_wrappers (run_wrapper opts s l0) l0 =
            map_option (\<lambda>w. w\<lparr>w_lastState := sys_state_id s\<rparr>) (sys_wrappers s l0)"
      by (cases "sys_wrappers s l0") (simp_all add: run_wrapper_wrappers)
    then show ?thesis
      using True Cons.IH [of "run_wrapper opts s l0"]
      by (cases "sys_wrappers s l0") (simp_all add: run_wrapper_quiet_fields)
  next
    case False
    then show ?thesis
      by (simp add: Cons.IH run_wrapper_quiet_fields run_wrapper_other)
  qed
qed

lemma notify_effect:
  assumes "distinct ls"
  shows "calls (notify opts s ls) p = calls s p + (if p \<in> set ls \<and> sees_change s p then 1 else 0)
       \<and> unsubscriptions (notify opts s ls) p = unsubscriptions s p + (if p \<in> set ls \<and> fires s p then 1 else 0)
       \<and> resolutions (notify opts s ls) p = resolutions s p + (if p \<in> set ls \<and> fires s p then 1 else 0)
       \<and> (p \<in> set (sys_subscribed (notify opts s ls)) \<longleftrightarrow>
            p \<in> set (sys_subscribed s) \<and> \<not> (p \<in> set ls \<and> fires s p))"
  using assms
proof (induction ls arbitrary: s)
  case Nil
  then show ?case by simp
next
  case (Cons l ls)
  then have nl: "l \<notin> set ls" and d: "distinct ls" by simp_all
  note IH = Cons.IH [OF d, of "run_wrapper opts s l"]
  have sub: "p \<in> set (sys_subscribed (run_wrapper opts s l)) \<longleftrightarrow>
               p \<in> set (sys_subscribed s) \<and> \<not> (p = l \<and> fires s l)"
    by (auto simp: run_wrapper_effect)
  show ?case
  proof (cases "p = l")
    case True
    then have "p \<notin> set ls" using nl by simp
    then show ?thesis
      using IH sub True by (simp add: run_wrapper_effect)
  next
    case False
    then show ?thesis
      using IH sub by (simp add: run_wrapper_effect run_wrapper_other)
  qed
qed

lemma run_wrapper_subscribed_set: "set (sys_subscribed (run_wrapper opts s l)) \<subseteq> set (sys_subscribed s)"
  by (auto simp: run_wrapper_effect)

lemma run_wrapper_subscribed_distinct: "distinct (sys_subscribed s) \<Longrightarrow> distinct (sys_subscribed (run_wrapper opts s l))"
  by (simp add: run_wrapper_effect)

lemma notify_subscribed:
  "set (sys_subscribed (notify opts s ls)) \<subseteq> set (sys_subscribed s)
   \<and> (distinct (sys_subscribed s) \<longrightarrow> distinct (sys_subscribed (notify opts s ls)))"
proof (induction ls arbitrary: s)
  case Nil
  then show ?case by simp
next
  case (Cons l ls)
  show ?case
    using Cons.IH [of "run_wrapper opts s l"] run_wrapper_subscribed_set [of opts s l]
      run_wrapper_subscribed_distinct [of s opts l]
    by auto
qed

lemma same_listeners_refl: "same_listeners s s"
  by (simp add: same_listeners_def)

lemma same_listeners_trans: "same_listeners s s' \<Longrightarrow> same_listeners s' s'' \<Longrightarrow> same_listeners s s''"
  by (simp add: same_listeners_def)

lemma same_listenersD:
  assumes "same_listeners s s'"
  shows "sys_subscribed s' = sys_subscribed s" "sys_wrappers s' = sys_wrappers s" "sys_next s' = sys_next s"
    "sys_state_id s' = sys_state_id s" "sys_metadata s' = sys_metadata s"
    "calls s' p = calls s p" "resolutions s' p = resolutions s p" "unsubscriptions s' p = unsubscriptions s p"
  using assms by (simp_all add: same_listeners_def)

lemma same_listeners_inv: "same_listeners s s' \<Longrightarrow> subscribed_inv s' = subscribed_inv s"
  by (simp add: same_listeners_def subscribed_inv_def)


lemma same_listeners_selectorResolver: "same_listeners s (selectorResolver opts s n a)"
  using quiet_selectorResolver [of s opts n a]
  by (simp add: same_listeners_def selectorResolver_frame quiet_def calls_def resolutions_def unsubscriptions_def)

lemma same_listeners_timers: "same_listeners s (s\<lparr>sys_timers := t\<rparr>)"
  by (simp add: same_listeners_def calls_def resolutions_def unsubscriptions_def)

lemma same_listeners_running: "same_listeners s (s\<lparr>sys_running := t\<rparr>)"
  by (simp add: same_listeners_def calls_def resolutions_def unsubscriptions_def)

lemma same_listeners_pending: "same_listeners s (s\<lparr>sys_pending := t\<rparr>)"
  by (simp add: same_listeners_def calls_def resolutions_def unsubscriptions_def)

lemma same_listeners_fulfil:
  "same_listeners s (s\<lparr>sys_trace := sys_trace s @ [Fulfil k], sys_pending := t\<rparr>)"
  by (simp add: same_listeners_def calls_def resolutions_def unsubscriptions_def)

lemma reduce_counts:
  "calls (reduce opts s act) p = calls s p"
  "resolutions (reduce opts s act) p = resolutions s p"
  "unsubscriptions (reduce opts s act) p = unsubscriptions s p"
  by (simp_all add: calls_def resolutions_def unsubscriptions_def reduce_fields count_Invalidated)

lemma store_dispatch_state:
  "sys_state_id (store_dispatch opts s act) = sys_state_id (reduce opts s act)"
  "sys_metadata (store_dispatch opts s act) = sys_metadata (reduce opts s act)"
  "sys_next (store_dispatch opts s act) = sys_next s"
  by (simp_all add: store_dispatch_def notify_quiet_fields reduce_fields)

lemma sees_change_reduce:
  assumes "subscribed_inv s" "p \<in> set (sys_subscribed s)"
  shows "sees_change (reduce opts s act) p = (sys_state_id (reduce opts s act) \<noteq> sys_state_id s)"
proof -
  obtain w where "sys_wrappers s p = Some w" "w_lastState w = sys_state_id s"
    using assms unfolding subscribed_inv_def by blast
  then show ?thesis
    by (simp add: sees_change_def reduce_fields)
qed

lemma store_dispatch_listener_conj:
  assumes inv: "subscribed_inv s"
  shows "calls (store_dispatch opts s act) p = calls s p +
           (if p \<in> set (sys_subscribed s) \<and> sys_state_id (store_dispatch opts s act) \<noteq> sys_state_id s
            then 1 else 0)
       \<and> unsubscriptions (store_dispatch opts s act) p = unsubscriptions s p +
           (if p \<in> set (sys_subscribed s) \<and> sys_state_id (store_dispatch opts s act) \<noteq> sys_state_id s
               \<and> sees_finished (reduce opts s act) p
            then 1 else 0)
       \<and> resolutions (store_dispatch opts s act) p = resolutions s p +
           (if p \<in> set (sys_subscribed s) \<and> sys_state_id (store_dispatch opts s act) \<noteq> sys_state_id s
               \<and> sees_finished (reduce opts s act) p
            then 1 else 0)
       \<and> (p \<in> set (sys_subscribed (store_dispatch opts s act)) \<longleftrightarrow>
           p \<in> set (sys_subscribed s) \<and>
           \<not> (sys_state_id (store_dispatch opts s act) \<noteq> sys_state_id s \<and> sees_finished (reduce opts s act) p))"
proof -
  define s1 where "s1 = reduce opts s act"
  have n: "store_dispatch opts s act = notify opts s1 (sys_subscribed s)"
    by (simp add: store_dispatch_def s1_def reduce_fields)
  have d: "distinct (sys_subscribed s)"
    using inv by (simp add: subscribed_inv_def)
  have id: "sys_state_id (notify opts s1 (sys_subscribed s)) = sys_state_id s1"
    by (simp add: notify_quiet_fields)
  have c1: "calls s1 p = calls s p" "resolutions s1 p = resolutions s p" "unsubscriptions s1 p = unsubscriptions s p"
    by (simp_all add: s1_def reduce_counts)
  have sub1: "sys_subscribed s1 = sys_subscribed s"
    by (simp add: s1_def reduce_fields)
  note e = notify_effect [OF d, of opts s1 p, unfolded sub1]
  show ?thesis
  proof (cases "p \<in> set (sys_subscribed s)")
    case False
    then show ?thesis
      unfolding n id s1_def [symmetric] using e c1 by simp
  next
    case True
    have sc: "sees_change s1 p = (sys_state_id s1 \<noteq> sys_state_id s)"
      unfolding s1_def using inv True by (rule sees_change_reduce)
    show ?thesis
      unfolding n id s1_def [symmetric] using e c1 True sc by (simp add: fires_def)
  qed
qed

lemma store_dispatch_listener:
  assumes inv: "subscribed_inv s"
  shows "calls (store_dispatch opts s act) p = calls s p +
           (if p \<in> set (sys_subscribed s) \<and> sys_state_id (store_dispatch opts s act) \<noteq> sys_state_id s
            then 1 else 0)"
    and "unsubscriptions (store_dispatch opts s act) p = unsubscriptions s p +
           (if p \<in> set (sys_subscribed s) \<and> sys_state_id (store_dispatch opts s act) \<noteq> sys_state_id s
               \<and> sees_finished (reduce opts s act) p
            then 1 else 0)"
    and "resolutions (store_dispatch opts s act) p = resolutions s p +
           (if p \<in> set (sys_subscribed s) \<and> sys_state_id (store_dispatch opts s act) \<noteq> sys_state_id s
               \<and> sees_finished (reduce opts s act) p
            then 1 else 0)"
    and "p \<in> set (sys_subscribed (store_dispatch opts s act)) \<longleftrightarrow>
           p \<in> set (sys_subscribed s) \<and>
           \<not> (sys_state_id (store_dispatch opts s act) \<noteq> sys_state_id s \<and> sees_finished (reduce opts s act) p)"
proof -
  note c = store_dispatch_listener_conj [OF inv, of opts act p]
  show "calls (store_dispatch opts s act) p = calls s p +
           (if p \<in> set (sys_subscribed s) \<and> sys_state_id (store_dispatch opts s act) \<noteq> sys_state_id s
            then 1 else 0)"
    by (rule c [THEN conjunct1])
  show "unsubscriptions (store_dispatch opts s act) p = unsubscriptions s p +
           (if p \<in> set (sys_subscribed s) \<and> sys_state_id (store_dispatch opts s act) \<noteq> sys_state_id s
               \<and> sees_finished (reduce opts s act) p
            then 1 else 0)"
    by (rule c [THEN conjunct2, THEN conjunct1])
  show "resolutions (store_dispatch opts s act) p = resolutions s p +
           (if p \<in> set (sys_subscribed s) \<and> sys_state_id (store_dispatch opts s act) \<noteq> sys_state_id s
               \<and> sees_finished (reduce opts s act) p
            then 1 else 0)"
    by (rule c [THEN conjunct2, THEN conjunct2, THEN conjunct1])
  show "p \<in> set (sys_subscribed (store_dispatch opts s act)) \<longleftrightarrow>
           p \<in> set (sys_subscribed s) \<and>
           \<not> (sys_state_id (store_dispatch opts s act) \<noteq> sys_state_id s \<and> sees_finished (reduce opts s act) p)"
    by (rule c [THEN conjunct2, THEN conjunct2, THEN conjunct2])
qed

lemma store_dispatch_wrappers:
  "sys_wrappers (store_dispatch opts s act) l =
     (if l \<in> set (sys_subscribed s)
      then map_option (\<lambda>w. w\<lparr>w_lastState := sys_state_id (store_dispatch opts s act)\<rparr>) (sys_wrappers s l)
      else sys_wrappers s l)"
proof -
  have "sys_wrappers (store_dispatch opts s act) l =
          (if l \<in> set (sys_subscribed s)
           then map_option (\<lambda>w. w\<lparr>w_lastState := sys_state_id (reduce opts s act)\<rparr>) (sys_wrappers s l)
           else sys_wrappers s l)"
    unfolding store_dispatch_def by (simp add: notify_wrappers reduce_fields)
  then show ?thesis
    unfolding store_dispatch_state .
qed

lemma subscribed_inv_dispatch:
  assumes inv: "subscribed_inv s"
  shows "subscribed_inv (store_dispatch opts s act)"
proof -
  let ?s' = "store_dispatch opts s act"
  have sub: "set (sys_subscribed ?s') \<subseteq> set (sys_subscribed s)" and d: "distinct (sys_subscribed ?s')"
    using notify_subscribed [of opts "reduce opts s act" "sys_subscribed (reduce opts s act)"] inv
    by (simp_all add: store_dispatch_def reduce_fields subscribed_inv_def)
  have a: "l < sys_next ?s' \<and> (\<exists>w. sys_wrappers ?s' l = Some w \<and> w_lastState w = sys_state_id ?s')"
    if "l \<in> set (sys_subscribed ?s')" for l
  proof -
    have l: "l \<in> set (sys_subscribed s)" using that sub by blast
    then obtain w where w: "sys_wrappers s l = Some w" and "l < sys_next s"
      using inv unfolding subscribed_inv_def by blast
    then show ?thesis
      using l by (simp add: store_dispatch_wrappers store_dispatch_state)
  qed
  have b: "calls ?s' l = 0 \<and> resolutions ?s' l = 0 \<and> unsubscriptions ?s' l = 0" if "sys_next ?s' \<le> l" for l
  proof -
    have n: "sys_next s \<le> l" using that by (simp add: store_dispatch_state)
    then have "l \<notin> set (sys_subscribed s)"
      using inv unfolding subscribed_inv_def by fastforce
    moreover have "calls s l = 0 \<and> resolutions s l = 0 \<and> unsubscriptions s l = 0"
      using inv n unfolding subscribed_inv_def by blast
    ultimately show ?thesis
      by (simp add: store_dispatch_listener [OF inv])
  qed
  show ?thesis
    unfolding subscribed_inv_def using d a b by blast
qed

subsection \<open>Listeners: the steps of a run\<close>

lemma shape_same: "same_listeners s s' \<Longrightarrow> step_shape opts s s'"
  by (simp add: step_shape_def)

lemma shape_dispatch:
  "same_listeners s s0 \<Longrightarrow> same_listeners (store_dispatch opts s0 act) s' \<Longrightarrow> step_shape opts s s'"
  unfolding step_shape_def by blast

lemma shape_subscribe: "same_listeners s s0 \<Longrightarrow> step_shape opts s (subscribe s0 lst)"
  unfolding step_shape_def by blast

lemma shape_resolved:
  "same_listeners s s0 \<Longrightarrow>
   step_shape opts s (s0\<lparr>sys_next := Suc (sys_next s0), sys_trace := sys_trace s0 @ [Resolved (sys_next s0) v]\<rparr>)"
  unfolding step_shape_def by blast

lemma timeout_callback_shape: "step_shape opts s (timeout_callback opts (s\<lparr>sys_timers := ks\<rparr>) k)"
proof -
  define s0 where "s0 = s\<lparr>sys_timers := ks, sys_running := (sys_running (s\<lparr>sys_timers := ks\<rparr>))(k := False)\<rparr>"
  define s2 where "s2 = store_dispatch opts s0 (Meta (START_RESOLUTION (fst k) (snd k)))"
  have r: "timeout_callback opts (s\<lparr>sys_timers := ks\<rparr>) k =
             s2\<lparr>sys_trace := sys_trace s2 @ [Fulfil k], sys_pending := sys_pending s2 @ [k]\<rparr>"
    by (simp add: timeout_callback_def Let_def s0_def s2_def)
  have a: "same_listeners s s0"
    unfolding s0_def by (simp add: same_listeners_def calls_def resolutions_def unsubscriptions_def)
  have b: "same_listeners s2 (timeout_callback opts (s\<lparr>sys_timers := ks\<rparr>) k)"
    unfolding r by (rule same_listeners_fulfil)
  show ?thesis
    using a b unfolding s2_def by (rule shape_dispatch)
qed

lemma settle_shape: "step_shape opts s (settle opts s k returned)"
proof (cases "k \<in> set (sys_pending s)")
  case False
  then show ?thesis by (simp add: settle_def shape_same same_listeners_refl)
next
  case True
  define s1 where "s1 = s\<lparr>sys_pending := remove1 k (sys_pending s)\<rparr>"
  have a: "same_listeners s s1" unfolding s1_def by (rule same_listeners_pending)
  show ?thesis
  proof (cases returned)
    case True
    then have "settle opts s k returned = store_dispatch opts s1 (Meta (FINISH_RESOLUTION (fst k) (snd k)))"
      using \<open>k \<in> set (sys_pending s)\<close> by (simp add: settle_def Let_def s1_def)
    then show ?thesis
      using shape_dispatch [OF a same_listeners_refl] by simp
  next
    case False
    then have "settle opts s k returned = s1"
      using \<open>k \<in> set (sys_pending s)\<close> by (simp add: settle_def Let_def s1_def)
    then show ?thesis
      using shape_same [OF a] by simp
  qed
qed

lemma resolveSelect_shape: "step_shape opts s (resolveSelect opts s n a)"
proof -
  define s1 where "s1 = selectorResolver opts s n a"
  have a: "same_listeners s s1" unfolding s1_def by (rule same_listeners_selectorResolver)
  show ?thesis
  proof (cases "hasFinishedResolution (sys_metadata s1) n a")
    case True
    then have "resolveSelect opts s n a =
        s1\<lparr>sys_next := Suc (sys_next s1), sys_trace := sys_trace s1 @ [Resolved (sys_next s1) (selector_value opts s n a)]\<rparr>"
      by (simp add: resolveSelect_def Let_def s1_def)
    then show ?thesis using shape_resolved [OF a] by simp
  next
    case False
    then have "resolveSelect opts s n a = subscribe s1 (Awaiting (n, a))"
      by (simp add: resolveSelect_def Let_def s1_def)
    then show ?thesis using shape_subscribe [OF a] by simp
  qed
qed

lemma step_has_shape: "step_shape opts s (step opts s e)"
proof (cases e)
  case (Select n a)
  then show ?thesis by (simp add: shape_same same_listeners_selectorResolver)
next
  case Tick
  then show ?thesis
    by (cases "sys_timers s") (simp_all add: shape_same same_listeners_refl timeout_callback_shape)
next
  case (Settle k r)
  then show ?thesis by (simp add: settle_shape)
next
  case (DispatchEv act)
  then show ?thesis using shape_dispatch [OF same_listeners_refl same_listeners_refl] by simp
next
  case Subscribe
  then show ?thesis using shape_subscribe [OF same_listeners_refl] by simp
next
  case (ResolveSelect n a)
  then show ?thesis by (simp add: resolveSelect_shape)
qed

lemma subscribed_inv_subscribe:
  assumes inv: "subscribed_inv s"
  shows "subscribed_inv (subscribe s lst)"
proof -
  have fresh: "sys_next s \<notin> set (sys_subscribed s)"
    using inv unfolding subscribed_inv_def by fastforce
  have d: "distinct (sys_subscribed (subscribe s lst))"
    using inv fresh by (simp add: subscribe_def subscribed_inv_def)
  have a: "l < sys_next (subscribe s lst) \<and>
           (\<exists>w. sys_wrappers (subscribe s lst) l = Some w \<and> w_lastState w = sys_state_id (subscribe s lst))"
    if "l \<in> set (sys_subscribed (subscribe s lst))" for l
  proof (cases "l = sys_next s")
    case True
    then show ?thesis by (simp add: subscribe_def)
  next
    case False
    then have "l \<in> set (sys_subscribed s)" using that by (simp add: subscribe_def)
    then have "l < sys_next s" "\<exists>w. sys_wrappers s l = Some w \<and> w_lastState w = sys_state_id s"
      using inv unfolding subscribed_inv_def by blast+
    then show ?thesis using False by (simp add: subscribe_def)
  qed
  have b: "calls (subscribe s lst) l = 0 \<and> resolutions (subscribe s lst) l = 0 \<and> unsubscriptions (subscribe s lst) l = 0"
    if "sys_next (subscribe s lst) \<le> l" for l
  proof -
    have "sys_next s \<le> l" using that by (simp add: subscribe_def)
    then have "calls s l = 0 \<and> resolutions s l = 0 \<and> unsubscriptions s l = 0"
      using inv unfolding subscribed_inv_def by blast
    then show ?thesis
      by (simp add: subscribe_def calls_def resolutions_def unsubscriptions_def)
  qed
  show ?thesis
    unfolding subscribed_inv_def using d a b by blast
qed

lemma subscribed_inv_resolved:
  assumes inv: "subscribed_inv s"
  shows "subscribed_inv (s\<lparr>sys_next := Suc (sys_next s), sys_trace := sys_trace s @ [Resolved (sys_next s) v]\<rparr>)"
    (is "subscribed_inv ?s'")
proof -
  have d: "distinct (sys_subscribed ?s')"
    using inv by (simp add: subscribed_inv_def)
  have a: "l < sys_next ?s' \<and> (\<exists>w. sys_wrappers ?s' l = Some w \<and> w_lastState w = sys_state_id ?s')"
    if "l \<in> set (sys_subscribed ?s')" for l
  proof -
    have "l \<in> set (sys_subscribed s)" using that by simp
    then have "l < sys_next s" "\<exists>w. sys_wrappers s l = Some w \<and> w_lastState w = sys_state_id s"
      using inv unfolding subscribed_inv_def by blast+
    then show ?thesis by simp
  qed
  have b: "calls ?s' l = 0 \<and> resolutions ?s' l = 0 \<and> unsubscriptions ?s' l = 0"
    if "sys_next ?s' \<le> l" for l
  proof -
    have n: "sys_next s < l" using that by simp
    then have "calls s l = 0 \<and> resolutions s l = 0 \<and> unsubscriptions s l = 0"
      using inv unfolding subscribed_inv_def by simp
    then show ?thesis
      using n by (simp add: calls_def resolutions_def unsubscriptions_def)
  qed
  show ?thesis
    unfolding subscribed_inv_def using d a b by blast
qed

lemma subscribed_inv_shape:
  assumes "step_shape opts s s'" and inv: "subscribed_inv s"
  shows "subscribed_inv s'"
proof -
  consider (same) "same_listeners s s'"
    | (dispatch) s0 act where "same_listeners s s0" "same_listeners (store_dispatch opts s0 act) s'"
    | (subscribe) s0 lst where "same_listeners s s0" "s' = subscribe s0 lst"
    | (resolved) s0 v where "same_listeners s s0"
        "s' = s0\<lparr>sys_next := Suc (sys_next s0), sys_trace := sys_trace s0 @ [Resolved (sys_next s0) v]\<rparr>"
    using assms(1) unfolding step_shape_def by blast
  then show ?thesis
  proof cases
    case same
    then show ?thesis using inv by (simp add: same_listeners_inv)
  next
    case dispatch
    have "subscribed_inv s0" using dispatch(1) inv by (simp add: same_listeners_inv)
    then have "subscribed_inv (store_dispatch opts s0 act)" by (rule subscribed_inv_dispatch)
    then show ?thesis using dispatch(2) by (simp add: same_listeners_inv)
  next
    case subscribe
    have "subscribed_inv s0" using subscribe(1) inv by (simp add: same_listeners_inv)
    then show ?thesis unfolding subscribe(2) by (rule subscribed_inv_subscribe)
  next
    case resolved
    have "subscribed_inv s0" using resolved(1) inv by (simp add: same_listeners_inv)
    then show ?thesis unfolding resolved(2) by (rule subscribed_inv_resolved)
  qed
qed

lemma subscribed_inv_step: "subscribed_inv s \<Longrightarrow> subscribed_inv (step opts s e)"
  using step_has_shape by (rule subscribed_inv_shape)

lemma subscribed_inv_run: "subscribed_inv s \<Longrightarrow> subscribed_inv (run opts s evs)"
  unfolding run_def by (induction evs arbitrary: s) (simp_all add: subscribed_inv_step)

lemma subscribed_inv_init: "subscribed_inv (init r)"
  by (simp add: subscribed_inv_def init_def calls_def resolutions_def unsubscriptions_def)

lemma subscribe_frame:
  "calls (subscribe s lst) p = calls s p"
  "resolutions (subscribe s lst) p = resolutions s p"
  "unsubscriptions (subscribe s lst) p = unsubscriptions s p"
  "sys_state_id (subscribe s lst) = sys_state_id s"
  "sys_metadata (subscribe s lst) = sys_metadata s"
  "sys_next (subscribe s lst) = Suc (sys_next s)"
  "sys_subscribed (subscribe s lst) = sys_subscribed s @ [sys_next s]"
  by (simp_all add: subscribe_def calls_def resolutions_def unsubscriptions_def)

lemma resolved_frame:
  "calls (s\<lparr>sys_next := n, sys_trace := sys_trace s @ [Resolved q v]\<rparr>) p = calls s p"
  "resolutions (s\<lparr>sys_next := n, sys_trace := sys_trace s @ [Resolved q v]\<rparr>) p =
     resolutions s p + (if p = q then 1 else 0)"
  "unsubscriptions (s\<lparr>sys_next := n, sys_trace := sys_trace s @ [Resolved q v]\<rparr>) p = unsubscriptions s p"
  by (simp_all add: calls_def resolutions_def unsubscriptions_def)


lemma calls_shape:
  assumes sh: "step_shape opts s s'" and inv: "subscribed_inv s" and l: "l \<in> set (sys_subscribed s)"
  shows "calls s' l = calls s l + (if sys_state_id s' \<noteq> sys_state_id s then 1 else 0)"
proof -
  consider (same) "same_listeners s s'"
    | (dispatch) s0 act where "same_listeners s s0" "same_listeners (store_dispatch opts s0 act) s'"
    | (subscribe) s0 lst where "same_listeners s s0" "s' = subscribe s0 lst"
    | (resolved) s0 v where "same_listeners s s0"
        "s' = s0\<lparr>sys_next := Suc (sys_next s0), sys_trace := sys_trace s0 @ [Resolved (sys_next s0) v]\<rparr>"
    using sh unfolding step_shape_def by blast
  then show ?thesis
  proof cases
    case same
    then show ?thesis by (simp add: same_listenersD)
  next
    case dispatch
    have i0: "subscribed_inv s0" using dispatch(1) inv by (simp add: same_listeners_inv)
    have l0: "l \<in> set (sys_subscribed s0)" using dispatch(1) l by (simp add: same_listenersD)
    have "calls (store_dispatch opts s0 act) l = calls s0 l +
            (if sys_state_id (store_dispatch opts s0 act) \<noteq> sys_state_id s0 then 1 else 0)"
      using store_dispatch_listener(1) [OF i0, where opts = opts and act = act and p = l] l0 by simp
    then show ?thesis
      by (simp add: same_listenersD [OF dispatch(1)] same_listenersD [OF dispatch(2)])
  next
    case subscribe
    show ?thesis
      unfolding subscribe(2) by (simp add: subscribe_frame same_listenersD [OF subscribe(1)])
  next
    case resolved
    show ?thesis
      unfolding resolved(2) by (simp add: resolved_frame same_listenersD [OF resolved(1)])
  qed
qed







subsection \<open>subscribe\<close>

lemma state_id_store_dispatch:
  "(sys_state_id (store_dispatch opts s act) = sys_state_id s) =
     ((\<exists>b. act = Root b) \<and> opt_reducer opts (sys_root s) act = None \<and> invalidated_by opts s act = [])"
  by (cases act) (simp_all add: store_dispatch_state reduce_def Let_def)

lemma run_wrapper_nested_inert:
  assumes "\<forall>s'. react l s' = []"
  shows "run_wrapper_nested inner react opts s l = Some (run_wrapper opts s l)"
proof (cases "sys_wrappers s l")
  case None
  then show ?thesis
    by (simp add: run_wrapper_nested_def run_wrapper_def)
next
  case (Some w)
  then show ?thesis
    using assms by (cases "w_listener w") (simp_all add: run_wrapper_nested_def run_wrapper_def Let_def)
qed

lemma notify_nested_inert:
  assumes "\<forall>l \<in> set ls. \<forall>s'. react l s' = []"
  shows "notify_nested inner react opts s ls = Some (notify opts s ls)"
  using assms
proof (induction ls arbitrary: s)
  case Nil
  then show ?case by simp
next
  case (Cons l ls)
  have "run_wrapper_nested inner react opts s l = Some (run_wrapper opts s l)"
    using Cons.prems by (simp add: run_wrapper_nested_inert)
  then show ?case
    using Cons.IH [of "run_wrapper opts s l"] Cons.prems by simp
qed

lemma dispatch_nested_inert:
  assumes "\<forall>l \<in> set (sys_subscribed s). \<forall>s'. react l s' = []"
  shows "dispatch_nested (Suc d) react opts s act = Some (store_dispatch opts s act)"
  using assms by (simp add: store_dispatch_def notify_nested_inert reduce_fields)

text \<open>
  C4, as the code has it. In every run of a store whose listeners do not dispatch
  while they are being notified, a listener that is subscribed is called once by an
  event that changes the state object the store holds, and is not called by an event
  that leaves the same object. An event holds at most one dispatch, and dispatching an
  action is such an event; with listeners that dispatch nothing, a dispatch to any
  depth is that dispatch. The state object after a dispatch is the same object exactly
  when the action invalidates no resolution, is not a metadata action, and the
  registered reducer returned the object it was given: identities are compared, not
  contents.
\<close>

theorem listener_called_on_change:
  assumes "l \<in> set (sys_subscribed (run opts (init r) evs))"
      and "\<forall>l' \<in> set (sys_subscribed (run opts (init r) evs)). \<forall>s'. react l' s' = []"
  shows "calls (step opts (run opts (init r) evs) e) l =
           calls (run opts (init r) evs) l +
           (if sys_state_id (step opts (run opts (init r) evs) e) = sys_state_id (run opts (init r) evs)
            then 0 else 1)
       \<and> step opts (run opts (init r) evs) (DispatchEv act) = store_dispatch opts (run opts (init r) evs) act
       \<and> dispatch_nested (Suc d) react opts (run opts (init r) evs) act =
           Some (store_dispatch opts (run opts (init r) evs) act)
       \<and> (sys_state_id (store_dispatch opts (run opts (init r) evs) act) = sys_state_id (run opts (init r) evs)) =
           ((\<exists>b. act = Root b) \<and> opt_reducer opts (sys_root (run opts (init r) evs)) act = None
            \<and> invalidated_by opts (run opts (init r) evs) act = [])"
proof -
  have inv: "subscribed_inv (run opts (init r) evs)"
    using subscribed_inv_init by (rule subscribed_inv_run)
  have "calls (step opts (run opts (init r) evs) e) l =
           calls (run opts (init r) evs) l +
           (if sys_state_id (step opts (run opts (init r) evs) e) \<noteq> sys_state_id (run opts (init r) evs)
            then 1 else 0)"
    using step_has_shape inv assms(1) by (rule calls_shape)
  moreover have "dispatch_nested (Suc d) react opts (run opts (init r) evs) act =
           Some (store_dispatch opts (run opts (init r) evs) act)"
    using assms(2) by (rule dispatch_nested_inert)
  ultimately show ?thesis
    by (simp add: state_id_store_dispatch)
qed

text \<open>
  One listener on the \<open>getWidget\<close> store: it is not called for \<open>noop\<close>, which returns
  the same state object, and is called once for \<open>copy\<close>, which returns a new object
  holding the same root state.
\<close>

lemma subscribed_after_subscribe:
  "sys_subscribed (run widget_options (init 0) [Subscribe]) = [0]"
  by (simp add: run_def init_def subscribe_def)

theorem listener_called_on_change_witness:
  "0 \<in> set (sys_subscribed (run widget_options (init 0) [Subscribe]))
   \<and> calls (run widget_options (init 0) [Subscribe]) 0 = 0
   \<and> calls (step widget_options (run widget_options (init 0) [Subscribe]) (DispatchEv (Root ''noop''))) 0 = 0
   \<and> calls (step widget_options (run widget_options (init 0) [Subscribe]) (DispatchEv (Root ''copy''))) 0 = 1
   \<and> sys_root (step widget_options (run widget_options (init 0) [Subscribe]) (DispatchEv (Root ''copy''))) = 0
   \<and> dispatch_nested 1 (\<lambda>l s. []) widget_options (run widget_options (init 0) [Subscribe]) (Root ''copy'')
       = Some (step widget_options (run widget_options (init 0) [Subscribe]) (DispatchEv (Root ''copy'')))"
proof -
  let ?s = "run widget_options (init 0) [Subscribe] :: (jsval list, string, nat, nat) sys"
  let ?react = "(\<lambda>l s. []) :: (jsval list, string, nat, nat) reaction"
  have m: "0 \<in> set (sys_subscribed ?s)"
    by (simp add: subscribed_after_subscribe)
  have i: "\<forall>l' \<in> set (sys_subscribed ?s). \<forall>s'. ?react l' s' = []"
    by simp
  have c0: "calls ?s 0 = 0"
    by (simp add: run_def init_def subscribe_def calls_def)
  have r: "sys_root ?s = 0"
    by (simp add: run_def init_def subscribe_def)
  have e: "invalidated_by widget_options ?s act = []" for act
    by (simp add: invalidated_by_def run_def init_def subscribe_def)
  have n: "sys_state_id (store_dispatch widget_options ?s (Root ''noop'')) = sys_state_id ?s"
    by (simp add: state_id_store_dispatch e) (simp add: widget_options_def)
  have c: "sys_state_id (store_dispatch widget_options ?s (Root ''copy'')) \<noteq> sys_state_id ?s"
    by (simp add: state_id_store_dispatch e) (simp add: widget_options_def)
  have rc: "sys_root (store_dispatch widget_options ?s (Root ''copy'')) = 0"
    using r by (simp add: store_dispatch_def quiet_root [OF quiet_notify] reduce_def Let_def widget_options_def)
  from listener_called_on_change [OF m i, of "DispatchEv (Root ''noop'')" "Root ''noop''" 0]
    listener_called_on_change [OF m i, of "DispatchEv (Root ''copy'')" "Root ''copy''" 0]
    m c0 n c rc
  show ?thesis
    by simp
qed

text \<open>
  C4, as the claim states it, fails: two listeners on the \<open>getWidget\<close> store. The first
  dispatches \<open>increment\<close> when it is called and finds the root state 1. The
  application dispatches \<open>increment\<close> on the root state 0: the state object changes,
  the first listener is called and dispatches, the state object changes again, and
  both listeners are notified of that; back in the first notification, the second
  listener finds the state object it has seen. Two dispatches have changed the state
  object; the first listener has been called twice, the second once.
\<close>

theorem listener_called_once_for_two_changes:
  "sys_subscribed (run widget_options (init 0) [Subscribe, Subscribe]) = [0, 1]
   \<and> sys_state_id (run widget_options (init 0) [Subscribe, Subscribe]) = 0
   \<and> map_option (\<lambda>s'. (dispatched s', sys_state_id s', sys_root s', calls s' 0, calls s' 1))
        (dispatch_nested 2 (\<lambda>l s. if l = 0 \<and> sys_root s = 1 then [Root ''increment''] else [])
           widget_options (run widget_options (init 0) [Subscribe, Subscribe]) (Root ''increment''))
      = Some ([Root ''increment'', Root ''increment''], 2, 2, 2, 1)"
  by (simp add: eval_defs run_wrapper_nested_def dispatched_def calls_def numeral_2_eq_2)

subsection \<open>resolveSelect\<close>










subsection \<open>getEntityRecords seeds the resolutions of getEntityRecord\<close>

lemma meta_actions_append: "meta_actions (xs @ ys) = meta_actions xs @ meta_actions ys"
  by (induction xs rule: meta_actions.induct) simp_all

lemma seed_resolutions_meta:
  "meta_actions (seed_resolutions kind name key records) =
     concat (map (\<lambda>rec. [START_RESOLUTION ''getEntityRecord'' [JStr kind, JStr name, get_prop rec key],
                          FINISH_RESOLUTION ''getEntityRecord'' [JStr kind, JStr name, get_prop rec key]])
               (filter (\<lambda>rec. truthy (get_prop rec key)) records))"
  by (induction records) simp_all

lemma seed_resolutions_pair:
  assumes "rec \<in> set records" "truthy (get_prop rec key)"
  shows "\<exists>before after. seed_resolutions kind name key records =
           before @ [Dispatch (START_RESOLUTION ''getEntityRecord'' [JStr kind, JStr name, get_prop rec key]),
                     Dispatch (FINISH_RESOLUTION ''getEntityRecord'' [JStr kind, JStr name, get_prop rec key])]
             @ after"
  using assms
proof (induction records)
  case Nil
  then show ?case by simp
next
  case (Cons r rs)
  show ?case
  proof (cases "rec = r")
    case True
    then have "seed_resolutions kind name key (r # rs) =
        [] @ [Dispatch (START_RESOLUTION ''getEntityRecord'' [JStr kind, JStr name, get_prop rec key]),
              Dispatch (FINISH_RESOLUTION ''getEntityRecord'' [JStr kind, JStr name, get_prop rec key])]
           @ seed_resolutions kind name key rs"
      using Cons.prems(2) by simp
    then show ?thesis by blast
  next
    case False
    then have "rec \<in> set rs" using Cons.prems(1) by simp
    then obtain before after where
      "seed_resolutions kind name key rs =
         before @ [Dispatch (START_RESOLUTION ''getEntityRecord'' [JStr kind, JStr name, get_prop rec key]),
                   Dispatch (FINISH_RESOLUTION ''getEntityRecord'' [JStr kind, JStr name, get_prop rec key])]
           @ after"
      using Cons.IH Cons.prems(2) by blast
    then have "seed_resolutions kind name key (r # rs) =
         ((if truthy (get_prop r key)
           then [Dispatch (START_RESOLUTION ''getEntityRecord'' [JStr kind, JStr name, get_prop r key]),
                 Dispatch (FINISH_RESOLUTION ''getEntityRecord'' [JStr kind, JStr name, get_prop r key])]
           else []) @ before)
         @ [Dispatch (START_RESOLUTION ''getEntityRecord'' [JStr kind, JStr name, get_prop rec key]),
            Dispatch (FINISH_RESOLUTION ''getEntityRecord'' [JStr kind, JStr name, get_prop rec key])]
         @ after"
      by simp
    then show ?thesis by blast
  qed
qed

lemma seed_resolutions_none:
  assumes "\<not> truthy v" "act \<in> set (meta_actions (seed_resolutions kind name key records))"
  shows "act \<noteq> START_RESOLUTION ''getEntityRecord'' [JStr kind, JStr name, v]
       \<and> act \<noteq> FINISH_RESOLUTION ''getEntityRecord'' [JStr kind, JStr name, v]"
  using assms by (induction records) (auto simp: meta_actions_append split: if_splits)

lemma seed_fold_step:
  "foldl metadataReducer m (meta_actions (seed_resolutions kind name key (r # rs))) =
     (if truthy (get_prop r key)
      then foldl metadataReducer
             (metadataReducer
                (metadataReducer m (START_RESOLUTION ''getEntityRecord'' [JStr kind, JStr name, get_prop r key]))
                (FINISH_RESOLUTION ''getEntityRecord'' [JStr kind, JStr name, get_prop r key]))
             (meta_actions (seed_resolutions kind name key rs))
      else foldl metadataReducer m (meta_actions (seed_resolutions kind name key rs)))"
  by simp

lemma seed_fold_finished_stays:
  "m k = Some Finished \<Longrightarrow>
   foldl metadataReducer m (meta_actions (seed_resolutions kind name key records)) k = Some Finished"
proof (induction records arbitrary: m)
  case Nil
  then show ?case by simp
next
  case (Cons r rs)
  define m' where "m' = metadataReducer
               (metadataReducer m (START_RESOLUTION ''getEntityRecord'' [JStr kind, JStr name, get_prop r key]))
               (FINISH_RESOLUTION ''getEntityRecord'' [JStr kind, JStr name, get_prop r key])"
  have a: "m' k = Some Finished"
    unfolding m'_def using Cons.prems by (auto split: option.splits status.splits)
  show ?case
    unfolding seed_fold_step m'_def [symmetric]
    using Cons.IH [of m', OF a] Cons.IH [of m, OF Cons.prems] by simp
qed

lemma seed_fold_finished:
  assumes "rec \<in> set records" "truthy (get_prop rec key)"
  shows "foldl metadataReducer m (meta_actions (seed_resolutions kind name key records))
           (''getEntityRecord'', [JStr kind, JStr name, get_prop rec key]) = Some Finished"
  using assms
proof (induction records arbitrary: m)
  case Nil
  then show ?case by simp
next
  case (Cons r rs)
  define m' where "m' = metadataReducer
               (metadataReducer m (START_RESOLUTION ''getEntityRecord'' [JStr kind, JStr name, get_prop r key]))
               (FINISH_RESOLUTION ''getEntityRecord'' [JStr kind, JStr name, get_prop r key])"
  show ?case
  proof (cases "rec = r")
    case True
    have "m' (''getEntityRecord'', [JStr kind, JStr name, get_prop rec key]) = Some Finished"
      unfolding m'_def using True by simp
    then have "foldl metadataReducer m' (meta_actions (seed_resolutions kind name key rs))
                 (''getEntityRecord'', [JStr kind, JStr name, get_prop rec key]) = Some Finished"
      by (rule seed_fold_finished_stays)
    then show ?thesis
      unfolding seed_fold_step m'_def [symmetric] using True Cons.prems(2) by simp
  next
    case False
    then have "rec \<in> set rs" using Cons.prems(1) by simp
    then show ?thesis
      unfolding seed_fold_step m'_def [symmetric]
      using Cons.IH [of m'] Cons.IH [of m] Cons.prems(2) by simp
  qed
qed

lemma seed_fold_untouched:
  assumes "\<not> truthy v"
  shows "foldl metadataReducer m (meta_actions (seed_resolutions kind name key records))
           (''getEntityRecord'', [JStr kind, JStr name, v]) = m (''getEntityRecord'', [JStr kind, JStr name, v])"
proof (induction records arbitrary: m)
  case Nil
  then show ?case by simp
next
  case (Cons r rs)
  define m' where "m' = metadataReducer
               (metadataReducer m (START_RESOLUTION ''getEntityRecord'' [JStr kind, JStr name, get_prop r key]))
               (FINISH_RESOLUTION ''getEntityRecord'' [JStr kind, JStr name, get_prop r key])"
  show ?case
  proof (cases "truthy (get_prop r key)")
    case True
    then have "get_prop r key \<noteq> v" using assms by blast
    then have "m' (''getEntityRecord'', [JStr kind, JStr name, v]) = m (''getEntityRecord'', [JStr kind, JStr name, v])"
      unfolding m'_def by (auto split: option.splits status.splits)
    then show ?thesis
      unfolding seed_fold_step m'_def [symmetric] using True Cons.IH [of m'] by simp
  next
    case False
    then show ?thesis
      unfolding seed_fold_step using Cons.IH [of m] by simp
  qed
qed

lemma selectorResolver_schedules:
  assumes "opt_resolvers opts n = Some (Resolver None)" "\<not> sys_running s (n, a)" "sys_metadata s (n, a) = None"
  shows "sys_timers (selectorResolver opts s n a) = sys_timers s @ [(n, a)]"
  using assms by (simp add: selectorResolver_def fulfillSelector_def hasStartedResolution_def)

text \<open>
  C6, as the code has it. A run of \<open>getEntityRecords\<close> that finds its entity, has no
  \<open>_fields\<close> in its query, fetches the records and receives them without an error
  dispatches, after the receive-action and before the lock is released, a
  \<open>START_RESOLUTION\<close> immediately followed by a \<open>FINISH_RESOLUTION\<close> for
  \<open>getEntityRecord\<close> with the arguments \<^verbatim>\<open>[ kind, name, record[ key ] ]\<close>, for every
  fetched record whose key field holds a truthy value, and these are all the metadata
  actions of the run. For such a record: once the store has reduced the actions the
  run dispatched, the resolution of that key has finished, and a call of
  \<open>getEntityRecord\<close> for it schedules no resolver. For a fetched record whose key
  field is missing or holds a falsy value, no action is dispatched, the resolution
  entry of that key is as it was, and when there was none a call of \<open>getEntityRecord\<close>
  for it schedules the resolver.
\<close>

theorem getEntityRecords_seeds_resolutions:
  assumes found: "find_entity (kindEntities c kind) kind name = Some entity"
      and q: "query = (case query0 of None \<Rightarrow> [] | Some q \<Rightarrow> q)"
      and nf: "\<not> truthy (get_prop query ''_fields'')"
      and fetched: "apiFetch (edit_request c (ent_baseURL entity) query) = Inr records"
      and received: "receiveEntityRecords c kind name (Multiple records) (Some query) = None"
  shows "getEntityRecords c apiFetch kind name query0 =
           ([DispatchKindEntities kind,
             AcquireStoreLock ''core'' (records_lock_path kind name) False,
             ApiFetch (edit_request c (ent_baseURL entity) query),
             ReceiveEntityRecords kind name (Multiple records) (Some query)]
            @ seed_resolutions kind name (entity_key entity) records
            @ [ReleaseStoreLock (acquireStoreLock c ''core'' (records_lock_path kind name) False)],
            Returned)
       \<and> meta_actions (fst (getEntityRecords c apiFetch kind name query0)) =
           concat (map (\<lambda>rec. [START_RESOLUTION ''getEntityRecord''
                                   [JStr kind, JStr name, get_prop rec (entity_key entity)],
                                FINISH_RESOLUTION ''getEntityRecord''
                                   [JStr kind, JStr name, get_prop rec (entity_key entity)]])
                     (filter (\<lambda>rec. truthy (get_prop rec (entity_key entity))) records))
       \<and> (\<forall>rec \<in> set records.
            if truthy (get_prop rec (entity_key entity))
            then (\<exists>before after. seed_resolutions kind name (entity_key entity) records =
                    before
                    @ [Dispatch (START_RESOLUTION ''getEntityRecord''
                                   [JStr kind, JStr name, get_prop rec (entity_key entity)]),
                       Dispatch (FINISH_RESOLUTION ''getEntityRecord''
                                   [JStr kind, JStr name, get_prop rec (entity_key entity)])]
                    @ after)
               \<and> hasFinishedResolution
                    (foldl metadataReducer m (meta_actions (fst (getEntityRecords c apiFetch kind name query0))))
                    ''getEntityRecord'' [JStr kind, JStr name, get_prop rec (entity_key entity)]
               \<and> (\<forall>s. sys_metadata s =
                         foldl metadataReducer m (meta_actions (fst (getEntityRecords c apiFetch kind name query0)))
                      \<longrightarrow> selectorResolver opts s ''getEntityRecord''
                             [JStr kind, JStr name, get_prop rec (entity_key entity)] = s)
            else (\<forall>act \<in> set (meta_actions (fst (getEntityRecords c apiFetch kind name query0))).
                    act \<noteq> START_RESOLUTION ''getEntityRecord''
                            [JStr kind, JStr name, get_prop rec (entity_key entity)]
                    \<and> act \<noteq> FINISH_RESOLUTION ''getEntityRecord''
                            [JStr kind, JStr name, get_prop rec (entity_key entity)])
               \<and> foldl metadataReducer m (meta_actions (fst (getEntityRecords c apiFetch kind name query0)))
                    (''getEntityRecord'', [JStr kind, JStr name, get_prop rec (entity_key entity)])
                  = m (''getEntityRecord'', [JStr kind, JStr name, get_prop rec (entity_key entity)])
               \<and> (\<forall>s. sys_metadata s =
                         foldl metadataReducer m (meta_actions (fst (getEntityRecords c apiFetch kind name query0)))
                       \<and> m (''getEntityRecord'', [JStr kind, JStr name, get_prop rec (entity_key entity)]) = None
                       \<and> opt_resolvers opts ''getEntityRecord'' = Some (Resolver None)
                       \<and> \<not> sys_running s (''getEntityRecord'', [JStr kind, JStr name, get_prop rec (entity_key entity)])
                      \<longrightarrow> sys_timers (selectorResolver opts s ''getEntityRecord''
                             [JStr kind, JStr name, get_prop rec (entity_key entity)])
                           = sys_timers s
                             @ [(''getEntityRecord'', [JStr kind, JStr name, get_prop rec (entity_key entity)])]))"
proof -
  let ?k = "entity_key entity"
  let ?run = "getEntityRecords c apiFetch kind name query0"
  have n: "normalize_fields c entity query = query"
    using nf by (simp add: normalize_fields_def)
  have body: "getEntityRecords_try c apiFetch entity kind name query =
      ([ApiFetch (edit_request c (ent_baseURL entity) query),
        ReceiveEntityRecords kind name (Multiple records) (Some query)]
       @ seed_resolutions kind name ?k records, None)"
    using nf fetched received by (simp add: getEntityRecords_try_def n Let_def)
  have run: "?run =
           ([DispatchKindEntities kind,
             AcquireStoreLock ''core'' (records_lock_path kind name) False,
             ApiFetch (edit_request c (ent_baseURL entity) query),
             ReceiveEntityRecords kind name (Multiple records) (Some query)]
            @ seed_resolutions kind name ?k records
            @ [ReleaseStoreLock (acquireStoreLock c ''core'' (records_lock_path kind name) False)],
            Returned)"
    using found body by (simp add: getEntityRecords_def Let_def q [symmetric])
  have ma: "meta_actions (fst ?run) = meta_actions (seed_resolutions kind name ?k records)"
    unfolding run by (simp add: meta_actions_append)
  have all: "meta_actions (fst ?run) =
           concat (map (\<lambda>rec. [START_RESOLUTION ''getEntityRecord'' [JStr kind, JStr name, get_prop rec ?k],
                                FINISH_RESOLUTION ''getEntityRecord'' [JStr kind, JStr name, get_prop rec ?k]])
                     (filter (\<lambda>rec. truthy (get_prop rec ?k)) records))"
    unfolding ma by (rule seed_resolutions_meta)
  have seeded: "(\<exists>before after. seed_resolutions kind name ?k records =
                    before
                    @ [Dispatch (START_RESOLUTION ''getEntityRecord'' [JStr kind, JStr name, get_prop rec ?k]),
                       Dispatch (FINISH_RESOLUTION ''getEntityRecord'' [JStr kind, JStr name, get_prop rec ?k])]
                    @ after)
               \<and> hasFinishedResolution (foldl metadataReducer m (meta_actions (fst ?run)))
                    ''getEntityRecord'' [JStr kind, JStr name, get_prop rec ?k]
               \<and> (\<forall>s. sys_metadata s = foldl metadataReducer m (meta_actions (fst ?run))
                      \<longrightarrow> selectorResolver opts s ''getEntityRecord'' [JStr kind, JStr name, get_prop rec ?k] = s)"
    if r: "rec \<in> set records" and t: "truthy (get_prop rec ?k)" for rec
  proof -
    have fin: "hasFinishedResolution (foldl metadataReducer m (meta_actions (fst ?run)))
                 ''getEntityRecord'' [JStr kind, JStr name, get_prop rec ?k]"
      unfolding ma hasFinishedResolution_def using r t by (rule seed_fold_finished)
    have "selectorResolver opts s ''getEntityRecord'' [JStr kind, JStr name, get_prop rec ?k] = s"
      if "sys_metadata s = foldl metadataReducer m (meta_actions (fst ?run))"
      for s :: "(jsval list, 'a, 'b, 'c) sys"
    proof -
      have "hasStartedResolution (sys_metadata s) ''getEntityRecord'' [JStr kind, JStr name, get_prop rec ?k]"
        using fin that by (simp add: hasStartedResolution_def hasFinishedResolution_def)
      then show ?thesis by (simp add: selectorResolver_skips)
    qed
    then show ?thesis
      using seed_resolutions_pair [OF r t] fin by blast
  qed
  have unseeded: "(\<forall>act \<in> set (meta_actions (fst ?run)).
                    act \<noteq> START_RESOLUTION ''getEntityRecord'' [JStr kind, JStr name, get_prop rec ?k]
                    \<and> act \<noteq> FINISH_RESOLUTION ''getEntityRecord'' [JStr kind, JStr name, get_prop rec ?k])
               \<and> foldl metadataReducer m (meta_actions (fst ?run))
                    (''getEntityRecord'', [JStr kind, JStr name, get_prop rec ?k])
                  = m (''getEntityRecord'', [JStr kind, JStr name, get_prop rec ?k])
               \<and> (\<forall>s. sys_metadata s = foldl metadataReducer m (meta_actions (fst ?run))
                       \<and> m (''getEntityRecord'', [JStr kind, JStr name, get_prop rec ?k]) = None
                       \<and> opt_resolvers opts ''getEntityRecord'' = Some (Resolver None)
                       \<and> \<not> sys_running s (''getEntityRecord'', [JStr kind, JStr name, get_prop rec ?k])
                      \<longrightarrow> sys_timers (selectorResolver opts s ''getEntityRecord''
                             [JStr kind, JStr name, get_prop rec ?k])
                           = sys_timers s @ [(''getEntityRecord'', [JStr kind, JStr name, get_prop rec ?k])])"
    if t: "\<not> truthy (get_prop rec ?k)" for rec
  proof -
    have a: "\<forall>act \<in> set (meta_actions (fst ?run)).
                    act \<noteq> START_RESOLUTION ''getEntityRecord'' [JStr kind, JStr name, get_prop rec ?k]
                    \<and> act \<noteq> FINISH_RESOLUTION ''getEntityRecord'' [JStr kind, JStr name, get_prop rec ?k]"
      unfolding ma using seed_resolutions_none [OF t] by blast
    have b: "foldl metadataReducer m (meta_actions (fst ?run))
                    (''getEntityRecord'', [JStr kind, JStr name, get_prop rec ?k])
                  = m (''getEntityRecord'', [JStr kind, JStr name, get_prop rec ?k])"
      unfolding ma using t by (rule seed_fold_untouched)
    have "sys_timers (selectorResolver opts s ''getEntityRecord'' [JStr kind, JStr name, get_prop rec ?k])
            = sys_timers s @ [(''getEntityRecord'', [JStr kind, JStr name, get_prop rec ?k])]"
      if "sys_metadata s = foldl metadataReducer m (meta_actions (fst ?run))"
        and "m (''getEntityRecord'', [JStr kind, JStr name, get_prop rec ?k]) = None"
        and "opt_resolvers opts ''getEntityRecord'' = Some (Resolver None)"
        and "\<not> sys_running s (''getEntityRecord'', [JStr kind, JStr name, get_prop rec ?k])"
      for s :: "(jsval list, 'a, 'b, 'c) sys"
      using that b by (intro selectorResolver_schedules) simp_all
    then show ?thesis
      using a b by blast
  qed
  show ?thesis
    using run all seeded unseeded by (intro conjI ballI) simp_all
qed

text \<open>
  The response with two posts: the resolution of record 3 is seeded, and nothing is
  dispatched for the record with the key 0.
\<close>

lemma two_posts_run:
  "getEntityRecords example_collaborators two_posts ''postType'' ''post'' None =
     ([DispatchKindEntities ''postType'',
       AcquireStoreLock ''core'' [JStr ''entities'', JStr ''data'', JStr ''postType'', JStr ''post''] False,
       ApiFetch \<lparr>req_path = ''/wp/v2/posts'', req_method = None, req_parse = None\<rparr>,
       ReceiveEntityRecords ''postType'' ''post''
         (Multiple [[(''id'', JNum 3), (''title'', JStr ''Hello'')], [(''id'', JNum 0), (''title'', JStr ''Draft'')]])
         (Some []),
       Dispatch (START_RESOLUTION ''getEntityRecord'' [JStr ''postType'', JStr ''post'', JNum 3]),
       Dispatch (FINISH_RESOLUTION ''getEntityRecord'' [JStr ''postType'', JStr ''post'', JNum 3]),
       ReleaseStoreLock 7],
      Returned)"
  by (simp add: getEntityRecords_def getEntityRecords_try_def Let_def find_entity_def normalize_fields_def
      get_prop_def edit_request_def two_posts_def records_lock_path_def entity_key_def DEFAULT_ENTITY_KEY_def
      example_collaborators_def post_entity_def)

theorem getEntityRecords_seeds_resolutions_witness:
  "find_entity (kindEntities example_collaborators ''postType'') ''postType'' ''post'' = Some post_entity
   \<and> \<not> truthy (get_prop [] ''_fields'')
   \<and> two_posts (edit_request example_collaborators (ent_baseURL post_entity) []) =
        Inr [[(''id'', JNum 3), (''title'', JStr ''Hello'')], [(''id'', JNum 0), (''title'', JStr ''Draft'')]]
   \<and> truthy (get_prop [(''id'', JNum 3), (''title'', JStr ''Hello'')] (entity_key post_entity))
   \<and> \<not> truthy (get_prop [(''id'', JNum 0), (''title'', JStr ''Draft'')] (entity_key post_entity))
   \<and> meta_actions (fst (getEntityRecords example_collaborators two_posts ''postType'' ''post'' None)) =
        [START_RESOLUTION ''getEntityRecord'' [JStr ''postType'', JStr ''post'', JNum 3],
         FINISH_RESOLUTION ''getEntityRecord'' [JStr ''postType'', JStr ''post'', JNum 3]]
   \<and> hasFinishedResolution
        (foldl metadataReducer (\<lambda>k. None)
           (meta_actions (fst (getEntityRecords example_collaborators two_posts ''postType'' ''post'' None))))
        ''getEntityRecord'' [JStr ''postType'', JStr ''post'', JNum 3]
   \<and> selectorResolver core_options
        ((init 0)\<lparr>sys_metadata := foldl metadataReducer (\<lambda>k. None)
           (meta_actions (fst (getEntityRecords example_collaborators two_posts ''postType'' ''post'' None)))\<rparr>)
        ''getEntityRecord'' [JStr ''postType'', JStr ''post'', JNum 3]
      = (init 0)\<lparr>sys_metadata := foldl metadataReducer (\<lambda>k. None)
           (meta_actions (fst (getEntityRecords example_collaborators two_posts ''postType'' ''post'' None)))\<rparr>
   \<and> foldl metadataReducer (\<lambda>k. None)
        (meta_actions (fst (getEntityRecords example_collaborators two_posts ''postType'' ''post'' None)))
        (''getEntityRecord'', [JStr ''postType'', JStr ''post'', JNum 0]) = None"
proof -
  let ?r3 = "[(''id'', JNum 3), (''title'', JStr ''Hello'')]"
  let ?r0 = "[(''id'', JNum 0), (''title'', JStr ''Draft'')]"
  let ?recs = "[?r3, ?r0]"
  let ?m = "foldl metadataReducer (\<lambda>k. None)
           (meta_actions (fst (getEntityRecords example_collaborators two_posts ''postType'' ''post'' None)))"
  have q: "([] :: jobject) = (case (None :: jobject option) of None \<Rightarrow> [] | Some q \<Rightarrow> q)" by simp
  have nf: "\<not> truthy (get_prop [] ''_fields'')" by (simp add: get_prop_def)
  have f: "two_posts (edit_request example_collaborators (ent_baseURL post_entity) []) = Inr ?recs"
    by (simp add: two_posts_def)
  have rc: "receiveEntityRecords example_collaborators ''postType'' ''post'' (Multiple ?recs) (Some []) = None"
    by (simp add: example_collaborators_def)
  have k3: "get_prop ?r3 (entity_key post_entity) = JNum 3"
    and k0: "get_prop ?r0 (entity_key post_entity) = JNum 0"
    by (simp_all add: get_prop_def entity_key_def post_entity_def DEFAULT_ENTITY_KEY_def)
  note inst = getEntityRecords_seeds_resolutions
      [where c = example_collaborators and apiFetch = two_posts and kind = "''postType''" and name = "''post''"
         and entity = post_entity and query = "[]" and ?query0.0 = None and records = ?recs
         and m = "\<lambda>k. None" and opts = core_options,
       OF find_post_entity q nf f rc]
  have ma: "meta_actions (fst (getEntityRecords example_collaborators two_posts ''postType'' ''post'' None)) =
        [START_RESOLUTION ''getEntityRecord'' [JStr ''postType'', JStr ''post'', JNum 3],
         FINISH_RESOLUTION ''getEntityRecord'' [JStr ''postType'', JStr ''post'', JNum 3]]"
    using inst [THEN conjunct2, THEN conjunct1] by (simp add: k3 k0)
  note each = inst [THEN conjunct2, THEN conjunct2]
  have r3: "?r3 \<in> set ?recs" and r0: "?r0 \<in> set ?recs" by simp_all
  have fin: "hasFinishedResolution ?m ''getEntityRecord'' [JStr ''postType'', JStr ''post'', JNum 3]"
    using each [rule_format, OF r3] by (simp add: k3)
  have "sys_metadata ((init 0 :: (jsval list, string, nat, nat) sys)\<lparr>sys_metadata := ?m\<rparr>) = ?m" by simp
  moreover have "\<forall>s :: (jsval list, string, nat, nat) sys. sys_metadata s = ?m \<longrightarrow>
      selectorResolver core_options s ''getEntityRecord'' [JStr ''postType'', JStr ''post'', JNum 3] = s"
    using each [rule_format, OF r3] by (simp add: k3)
  ultimately have skip: "selectorResolver core_options ((init 0)\<lparr>sys_metadata := ?m\<rparr>)
        ''getEntityRecord'' [JStr ''postType'', JStr ''post'', JNum 3] = (init 0)\<lparr>sys_metadata := ?m\<rparr>"
    by blast
  have un: "?m (''getEntityRecord'', [JStr ''postType'', JStr ''post'', JNum 0]) = None"
    using each [rule_format, OF r0] by (simp add: k0)
  show ?thesis
    using find_post_entity nf f k3 k0 ma fin skip un by simp
qed

text \<open>
  C6, as the claim states it, fails: in the same run the second record has the key 0,
  which is falsy. No action is dispatched for it, its resolution has not started, and
  a call of \<open>getEntityRecord\<close> for it schedules the resolver.
\<close>

theorem falsy_key_not_seeded:
  "getEntityRecords example_collaborators two_posts ''postType'' ''post'' None =
     ([DispatchKindEntities ''postType'',
       AcquireStoreLock ''core'' [JStr ''entities'', JStr ''data'', JStr ''postType'', JStr ''post''] False,
       ApiFetch \<lparr>req_path = ''/wp/v2/posts'', req_method = None, req_parse = None\<rparr>,
       ReceiveEntityRecords ''postType'' ''post''
         (Multiple [[(''id'', JNum 3), (''title'', JStr ''Hello'')], [(''id'', JNum 0), (''title'', JStr ''Draft'')]])
         (Some []),
       Dispatch (START_RESOLUTION ''getEntityRecord'' [JStr ''postType'', JStr ''post'', JNum 3]),
       Dispatch (FINISH_RESOLUTION ''getEntityRecord'' [JStr ''postType'', JStr ''post'', JNum 3]),
       ReleaseStoreLock 7],
      Returned)
   \<and> get_prop [(''id'', JNum 0), (''title'', JStr ''Draft'')] (entity_key post_entity) = JNum 0
   \<and> \<not> hasStartedResolution
        (foldl metadataReducer (\<lambda>k. None)
           (meta_actions (fst (getEntityRecords example_collaborators two_posts ''postType'' ''post'' None))))
        ''getEntityRecord'' [JStr ''postType'', JStr ''post'', JNum 0]
   \<and> sys_timers (selectorResolver core_options
        ((init 0)\<lparr>sys_metadata := foldl metadataReducer (\<lambda>k. None)
           (meta_actions (fst (getEntityRecords example_collaborators two_posts ''postType'' ''post'' None)))\<rparr>)
        ''getEntityRecord'' [JStr ''postType'', JStr ''post'', JNum 0])
      = [(''getEntityRecord'', [JStr ''postType'', JStr ''post'', JNum 0])]"
  unfolding two_posts_run
  by (simp add: get_prop_def entity_key_def post_entity_def DEFAULT_ENTITY_KEY_def hasStartedResolution_def
      selectorResolver_def fulfillSelector_def core_options_def init_def)

end
